theory Spec2Isabelle
  imports Complex_Main
begin

section \<open>JavaScript numbers and arrays\<close>

text \<open>
  A value of the source's type \<^verbatim>\<open>number\<close>, as the program can observe it: a finite
  double (modelled as a real, without rounding and without a signed zero), the two
  infinities, NaN, and \<^verbatim>\<open>undefined\<close>, which is what reading an array beyond its end
  yields and which arithmetic converts to NaN.
\<close>

datatype number = Fin real | PInf | NInf | NaN | Undefined

fun js_add :: "number \<Rightarrow> number \<Rightarrow> number" where
  "js_add (Fin a) (Fin b) = Fin (a + b)"
| "js_add (Fin a) PInf = PInf"
| "js_add (Fin a) NInf = NInf"
| "js_add PInf (Fin b) = PInf"
| "js_add PInf PInf = PInf"
| "js_add NInf (Fin b) = NInf"
| "js_add NInf NInf = NInf"
| "js_add _ _ = NaN"

fun js_neg :: "number \<Rightarrow> number" where
  "js_neg (Fin a) = Fin (- a)"
| "js_neg PInf = NInf"
| "js_neg NInf = PInf"
| "js_neg _ = NaN"

fun js_mul :: "number \<Rightarrow> number \<Rightarrow> number" where
  "js_mul (Fin a) (Fin b) = Fin (a * b)"
| "js_mul (Fin a) PInf = (if a = 0 then NaN else if 0 < a then PInf else NInf)"
| "js_mul (Fin a) NInf = (if a = 0 then NaN else if 0 < a then NInf else PInf)"
| "js_mul PInf (Fin b) = (if b = 0 then NaN else if 0 < b then PInf else NInf)"
| "js_mul NInf (Fin b) = (if b = 0 then NaN else if 0 < b then NInf else PInf)"
| "js_mul PInf PInf = PInf"
| "js_mul PInf NInf = NInf"
| "js_mul NInf PInf = NInf"
| "js_mul NInf NInf = PInf"
| "js_mul _ _ = NaN"

fun js_div :: "number \<Rightarrow> number \<Rightarrow> number" where
  "js_div (Fin a) (Fin b) =
     (if b = 0 then (if a = 0 then NaN else if 0 < a then PInf else NInf) else Fin (a / b))"
| "js_div (Fin a) PInf = Fin 0"
| "js_div (Fin a) NInf = Fin 0"
| "js_div PInf (Fin b) = (if 0 \<le> b then PInf else NInf)"
| "js_div NInf (Fin b) = (if 0 \<le> b then NInf else PInf)"
| "js_div _ _ = NaN"

text \<open>The comparison \<^verbatim>\<open>a < b\<close>: false as soon as one side is NaN or undefined.\<close>

fun js_less :: "number \<Rightarrow> number \<Rightarrow> bool" where
  "js_less (Fin a) (Fin b) = (a < b)"
| "js_less (Fin a) PInf = True"
| "js_less NInf (Fin b) = True"
| "js_less NInf PInf = True"
| "js_less _ _ = False"

fun js_less_eq :: "number \<Rightarrow> number \<Rightarrow> bool" where
  "js_less_eq (Fin a) (Fin b) = (a \<le> b)"
| "js_less_eq (Fin a) PInf = True"
| "js_less_eq NInf (Fin b) = True"
| "js_less_eq NInf PInf = True"
| "js_less_eq PInf PInf = True"
| "js_less_eq NInf NInf = True"
| "js_less_eq _ _ = False"

instantiation number :: "{plus, minus, uminus, times, inverse, ord}"
begin

definition plus_number :: "number \<Rightarrow> number \<Rightarrow> number" where
  "plus_number a b = js_add a b"

definition uminus_number :: "number \<Rightarrow> number" where
  "uminus_number a = js_neg a"

definition minus_number :: "number \<Rightarrow> number \<Rightarrow> number" where
  "minus_number a b = js_add a (js_neg b)"

definition times_number :: "number \<Rightarrow> number \<Rightarrow> number" where
  "times_number a b = js_mul a b"

definition divide_number :: "number \<Rightarrow> number \<Rightarrow> number" where
  "divide_number a b = js_div a b"

definition inverse_number :: "number \<Rightarrow> number" where
  "inverse_number a = js_div (Fin 1) a"

definition less_number :: "number \<Rightarrow> number \<Rightarrow> bool" where
  "less_number a b = js_less a b"

definition less_eq_number :: "number \<Rightarrow> number \<Rightarrow> bool" where
  "less_eq_number a b = js_less_eq a b"

instance ..

end

text \<open>\<^verbatim>\<open>Math.min\<close> and \<^verbatim>\<open>Math.max\<close> of two arguments: NaN if either is.\<close>

fun is_nan :: "number \<Rightarrow> bool" where
  "is_nan NaN = True"
| "is_nan Undefined = True"
| "is_nan _ = False"

definition Math_min :: "number \<Rightarrow> number \<Rightarrow> number" where
  "Math_min a b = (if is_nan a \<or> is_nan b then NaN else if b < a then b else a)"

definition Math_max :: "number \<Rightarrow> number \<Rightarrow> number" where
  "Math_max a b = (if is_nan a \<or> is_nan b then NaN else if a < b then b else a)"

fun Math_exp :: "number \<Rightarrow> number" where
  "Math_exp (Fin a) = Fin (exp a)"
| "Math_exp PInf = PInf"
| "Math_exp NInf = Fin 0"
| "Math_exp _ = NaN"

text \<open>\<^verbatim>\<open>Math.round\<close> rounds half up; \<^verbatim>\<open>Math.floor\<close> rounds down.\<close>

fun Math_round :: "number \<Rightarrow> number" where
  "Math_round (Fin a) = Fin (of_int \<lfloor>a + 1 / 2\<rfloor>)"
| "Math_round PInf = PInf"
| "Math_round NInf = NInf"
| "Math_round _ = NaN"

text \<open>
  Reading \<^verbatim>\<open>xs[i]\<close> yields \<^verbatim>\<open>undefined\<close> beyond the end; writing \<^verbatim>\<open>xs[i] = v\<close>
  beyond the end extends the array, the skipped positions reading as \<^verbatim>\<open>undefined\<close>.
\<close>

definition js_nth :: "number list \<Rightarrow> nat \<Rightarrow> number" where
  "js_nth xs i = (if i < length xs then xs ! i else Undefined)"

definition js_update :: "number list \<Rightarrow> nat \<Rightarrow> number \<Rightarrow> number list" where
  "js_update xs i v =
     (if i < length xs then xs[i := v] else xs @ replicate (i - length xs) Undefined @ [v])"


section \<open>The feedforward network (src/ai/NeuralNetwork.ts)\<close>

record networkArchitecture =
  inputSize :: nat
  hidden1Size :: nat
  hidden2Size :: nat
  outputSize :: nat

record neuralNetwork =
  architecture :: networkArchitecture
  weightsIH1 :: "number list list"
  weightsH1H2 :: "number list list"
  weightsH2O :: "number list list"
  biasH1 :: "number list"
  biasH2 :: "number list"
  biasO :: "number list"
  lastInputs :: "number list"
  lastHidden1 :: "number list"
  lastHidden2 :: "number list"
  lastOutputs :: "number list"

definition DEFAULT_ARCHITECTURE :: networkArchitecture where
  "DEFAULT_ARCHITECTURE =
     \<lparr>inputSize = 12, hidden1Size = 8, hidden2Size = 6, outputSize = 3\<rparr>"

text \<open>
  What a call can throw: the \<^verbatim>\<open>Error\<close> that \<^verbatim>\<open>predict\<close> raises itself (expected and
  received input length), and the \<^verbatim>\<open>TypeError\<close> of indexing a row that does not exist
  (\<^verbatim>\<open>m[i][j]\<close> with \<^verbatim>\<open>m[i]\<close> undefined).
\<close>

datatype error = ShapeMismatch nat nat | TypeError

definition and_then :: "error + 'a \<Rightarrow> ('a \<Rightarrow> error + 'b) \<Rightarrow> error + 'b" where
  "and_then r f = (case r of Inl e \<Rightarrow> Inl e | Inr x \<Rightarrow> f x)"

definition cell :: "number list list \<Rightarrow> nat \<Rightarrow> nat \<Rightarrow> error + number" where
  "cell m i j = (if i < length m then Inr (js_nth (m ! i) j) else Inl TypeError)"

definition set_cell ::
  "number list list \<Rightarrow> nat \<Rightarrow> nat \<Rightarrow> number \<Rightarrow> error + number list list" where
  "set_cell m i j v =
     (if i < length m then Inr (m[i := js_update (m ! i) j v]) else Inl TypeError)"

text \<open>\<^verbatim>\<open>sigmoid(x) = 1 / (1 + Math.exp(-x))\<close>\<close>

definition sigmoid :: "number \<Rightarrow> number" where
  "sigmoid x = Fin 1 / (Fin 1 + Math_exp (- x))"

text \<open>
  One neuron of \<^verbatim>\<open>predict\<close>: \<^verbatim>\<open>sum = bias[j]\<close>, then \<^verbatim>\<open>sum += inputs[i] * w[i][j]\<close>
  for \<^verbatim>\<open>i\<close> from 0 to \<^verbatim>\<open>inSize - 1\<close>.
\<close>

definition weighted_sum ::
  "number list \<Rightarrow> number list list \<Rightarrow> number list \<Rightarrow> nat \<Rightarrow> nat \<Rightarrow> error + number" where
  "weighted_sum inputs w bias inSize j =
     fold (\<lambda>i acc. and_then acc (\<lambda>sum. and_then (cell w i j)
             (\<lambda>c. Inr (sum + js_nth inputs i * c))))
       [0..<inSize] (Inr (js_nth bias j))"

text \<open>
  One layer: for \<^verbatim>\<open>j\<close> from 0 to \<^verbatim>\<open>outSize - 1\<close>, \<^verbatim>\<open>out[j] = sigmoid(sum)\<close>, starting
  from the empty array.
\<close>

definition layer ::
  "number list \<Rightarrow> number list list \<Rightarrow> number list \<Rightarrow> nat \<Rightarrow> nat \<Rightarrow> error + number list" where
  "layer inputs w bias inSize outSize =
     fold (\<lambda>j acc. and_then acc (\<lambda>out. and_then (weighted_sum inputs w bias inSize j)
             (\<lambda>sum. Inr (js_update out j (sigmoid sum)))))
       [0..<outSize] (Inr [])"

text \<open>
  \<^verbatim>\<open>predict\<close> returns the outputs together with the network after the call (the four
  cached vectors are assigned). The length check comes first and throws before anything
  is assigned.
\<close>

definition predict :: "neuralNetwork \<Rightarrow> number list \<Rightarrow> error + (number list \<times> neuralNetwork)" where
  "predict n inputs =
     (let a = architecture n in
      if length inputs \<noteq> inputSize a then Inl (ShapeMismatch (inputSize a) (length inputs))
      else
        and_then (layer inputs (weightsIH1 n) (biasH1 n) (inputSize a) (hidden1Size a))
          (\<lambda>hidden1.
        and_then (layer hidden1 (weightsH1H2 n) (biasH2 n) (hidden1Size a) (hidden2Size a))
          (\<lambda>hidden2.
        and_then (layer hidden2 (weightsH2O n) (biasO n) (hidden2Size a) (outputSize a))
          (\<lambda>outputs.
        Inr (outputs,
             n\<lparr>lastInputs := inputs, lastHidden1 := hidden1,
               lastHidden2 := hidden2, lastOutputs := outputs\<rparr>)))))"

text \<open>
  \<^verbatim>\<open>getWeights\<close>: the three matrices are pushed cell by cell, row after row, then the
  three bias arrays are appended.
\<close>

definition push_matrix ::
  "number list list \<Rightarrow> nat \<Rightarrow> nat \<Rightarrow> number list \<Rightarrow> error + number list" where
  "push_matrix m rows cols weights =
     fold (\<lambda>i acc. fold (\<lambda>j acc. and_then acc (\<lambda>ws. and_then (cell m i j)
                             (\<lambda>c. Inr (ws @ [c]))))
                      [0..<cols] acc)
       [0..<rows] (Inr weights)"

definition getWeights :: "neuralNetwork \<Rightarrow> error + number list" where
  "getWeights n =
     (let a = architecture n in
      and_then (push_matrix (weightsIH1 n) (inputSize a) (hidden1Size a) []) (\<lambda>w1.
      and_then (push_matrix (weightsH1H2 n) (hidden1Size a) (hidden2Size a) w1) (\<lambda>w2.
      and_then (push_matrix (weightsH2O n) (hidden2Size a) (outputSize a) w2) (\<lambda>w3.
      Inr (w3 @ biasH1 n @ biasH2 n @ biasO n)))))"

text \<open>
  \<^verbatim>\<open>setWeights\<close>: one running \<^verbatim>\<open>index\<close> into the flat array; every cell and then every
  bias is assigned \<^verbatim>\<open>weights[index++]\<close>.
\<close>

definition store_matrix ::
  "number list list \<Rightarrow> nat \<Rightarrow> nat \<Rightarrow> number list \<Rightarrow> nat \<Rightarrow> error + (number list list \<times> nat)" where
  "store_matrix m rows cols weights index =
     fold (\<lambda>i acc. fold (\<lambda>j acc. and_then acc (\<lambda>(m', idx).
                             and_then (set_cell m' i j (js_nth weights idx))
                               (\<lambda>m''. Inr (m'', Suc idx))))
                      [0..<cols] acc)
       [0..<rows] (Inr (m, index))"

definition store_vector ::
  "number list \<Rightarrow> nat \<Rightarrow> number list \<Rightarrow> nat \<Rightarrow> number list \<times> nat" where
  "store_vector b len weights index =
     fold (\<lambda>i (b', idx). (js_update b' i (js_nth weights idx), Suc idx)) [0..<len] (b, index)"

definition setWeights :: "neuralNetwork \<Rightarrow> number list \<Rightarrow> error + neuralNetwork" where
  "setWeights n weights =
     (let a = architecture n in
      and_then (store_matrix (weightsIH1 n) (inputSize a) (hidden1Size a) weights 0)
        (\<lambda>(m1, i1).
      and_then (store_matrix (weightsH1H2 n) (hidden1Size a) (hidden2Size a) weights i1)
        (\<lambda>(m2, i2).
      and_then (store_matrix (weightsH2O n) (hidden2Size a) (outputSize a) weights i2)
        (\<lambda>(m3, i3).
      let (b1, i4) = store_vector (biasH1 n) (hidden1Size a) weights i3;
          (b2, i5) = store_vector (biasH2 n) (hidden2Size a) weights i4;
          (b3, i6) = store_vector (biasO n) (outputSize a) weights i5
      in Inr (n\<lparr>weightsIH1 := m1, weightsH1H2 := m2, weightsH2O := m3,
                biasH1 := b1, biasH2 := b2, biasO := b3\<rparr>)))))"

definition getTotalWeights :: "neuralNetwork \<Rightarrow> nat" where
  "getTotalWeights n =
     (let a = architecture n;
          ih1 = inputSize a * hidden1Size a;
          h1h2 = hidden1Size a * hidden2Size a;
          h2o = hidden2Size a * outputSize a;
          biases = hidden1Size a + hidden2Size a + outputSize a
      in ih1 + h1h2 + h2o + biases)"

text \<open>
  The random source: \<^verbatim>\<open>Math.random()\<close> is a sequence of draws, read at a position that
  every call advances by one. \<^verbatim>\<open>randomWeight\<close> is \<^verbatim>\<open>Math.random() * 2 - 1\<close>.
\<close>

type_synonym rng = "nat \<Rightarrow> real"

definition randomWeight :: "rng \<Rightarrow> nat \<Rightarrow> number" where
  "randomWeight r p = Fin (r p * 2 - 1)"

text \<open>
  The constructor (\<^verbatim>\<open>initializeWeights\<close>): each matrix is built row by row from fresh
  draws, then the three bias arrays; the cached vectors start empty. It returns the
  position of the next draw.
\<close>

definition random_matrix :: "rng \<Rightarrow> nat \<Rightarrow> nat \<Rightarrow> nat \<Rightarrow> number list list" where
  "random_matrix r p rows cols =
     map (\<lambda>i. map (\<lambda>j. randomWeight r (p + i * cols + j)) [0..<cols]) [0..<rows]"

definition random_vector :: "rng \<Rightarrow> nat \<Rightarrow> nat \<Rightarrow> number list" where
  "random_vector r p len = map (\<lambda>i. randomWeight r (p + i)) [0..<len]"

definition new_NeuralNetwork :: "networkArchitecture \<Rightarrow> rng \<Rightarrow> nat \<Rightarrow> neuralNetwork \<times> nat" where
  "new_NeuralNetwork a r p =
     (let p1 = p + inputSize a * hidden1Size a;
          p2 = p1 + hidden1Size a * hidden2Size a;
          p3 = p2 + hidden2Size a * outputSize a;
          p4 = p3 + hidden1Size a;
          p5 = p4 + hidden2Size a
      in (\<lparr>architecture = a,
           weightsIH1 = random_matrix r p (inputSize a) (hidden1Size a),
           weightsH1H2 = random_matrix r p1 (hidden1Size a) (hidden2Size a),
           weightsH2O = random_matrix r p2 (hidden2Size a) (outputSize a),
           biasH1 = random_vector r p3 (hidden1Size a),
           biasH2 = random_vector r p4 (hidden2Size a),
           biasO = random_vector r p5 (outputSize a),
           lastInputs = [], lastHidden1 = [], lastHidden2 = [], lastOutputs = []\<rparr>,
          p5 + outputSize a))"

text \<open>\<^verbatim>\<open>clone\<close>: a fresh network of the same architecture, then \<^verbatim>\<open>setWeights(getWeights())\<close>.\<close>

definition clone :: "neuralNetwork \<Rightarrow> rng \<Rightarrow> nat \<Rightarrow> error + (neuralNetwork \<times> nat)" where
  "clone n r p =
     (let (c, p') = new_NeuralNetwork (architecture n) r p in
      and_then (getWeights n) (\<lambda>w. and_then (setWeights c w) (\<lambda>c'. Inr (c', p'))))"

text \<open>
  The shape the constructor gives a network and every method keeps: each matrix has one
  row per source neuron and one column per target neuron, each bias one entry per neuron.
\<close>

definition wf_matrix :: "number list list \<Rightarrow> nat \<Rightarrow> nat \<Rightarrow> bool" where
  "wf_matrix m rows cols = (length m = rows \<and> list_all (\<lambda>row. length row = cols) m)"

definition wf_network :: "neuralNetwork \<Rightarrow> bool" where
  "wf_network n =
     (let a = architecture n in
      wf_matrix (weightsIH1 n) (inputSize a) (hidden1Size a) \<and>
      wf_matrix (weightsH1H2 n) (hidden1Size a) (hidden2Size a) \<and>
      wf_matrix (weightsH2O n) (hidden2Size a) (outputSize a) \<and>
      length (biasH1 n) = hidden1Size a \<and>
      length (biasH2 n) = hidden2Size a \<and>
      length (biasO n) = outputSize a)"


subsection \<open>Auxiliary notions for the network proofs\<close>

text \<open>
  The flat vector in closed form: \<open>slice\<close> reads a run of positions of the flat array,
  \<open>chop\<close> cuts such a run into rows; \<open>flatten\<close> and \<open>unflatten\<close> are what
  \<open>getWeights\<close> and \<open>setWeights\<close> compute on a well-formed network (lemmas
  \<open>getWeights_wf\<close> and \<open>setWeights_wf\<close>). \<open>example_network\<close> is a small network
  used to instantiate the theorems.
\<close>

definition slice :: "number list \<Rightarrow> nat \<Rightarrow> nat \<Rightarrow> number list" where
  "slice w idx len = map (\<lambda>i. js_nth w (idx + i)) [0..<len]"

definition chop :: "number list \<Rightarrow> nat \<Rightarrow> nat \<Rightarrow> nat \<Rightarrow> number list list" where
  "chop w idx rows cols = map (\<lambda>i. slice w (idx + i * cols) cols) [0..<rows]"

definition flatten :: "neuralNetwork \<Rightarrow> number list" where
  "flatten n = concat (weightsIH1 n) @ concat (weightsH1H2 n) @ concat (weightsH2O n) @
               biasH1 n @ biasH2 n @ biasO n"

definition unflatten :: "neuralNetwork \<Rightarrow> number list \<Rightarrow> neuralNetwork" where
  "unflatten n w =
     (let a = architecture n;
          i1 = inputSize a * hidden1Size a;
          i2 = i1 + hidden1Size a * hidden2Size a;
          i3 = i2 + hidden2Size a * outputSize a;
          i4 = i3 + hidden1Size a;
          i5 = i4 + hidden2Size a
      in n\<lparr>weightsIH1 := chop w 0 (inputSize a) (hidden1Size a),
            weightsH1H2 := chop w i1 (hidden1Size a) (hidden2Size a),
            weightsH2O := chop w i2 (hidden2Size a) (outputSize a),
            biasH1 := slice w i3 (hidden1Size a),
            biasH2 := slice w i4 (hidden2Size a),
            biasO := slice w i5 (outputSize a)\<rparr>)"

definition example_network :: neuralNetwork where
  "example_network =
     \<lparr>architecture = \<lparr>inputSize = 2, hidden1Size = 2, hidden2Size = 1, outputSize = 1\<rparr>,
      weightsIH1 = [[Fin 1, Fin 2], [Fin 3, Fin 4]],
      weightsH1H2 = [[Fin 5], [Fin 6]],
      weightsH2O = [[Fin 7]],
      biasH1 = [Fin 8, Fin 9], biasH2 = [Fin 10], biasO = [Fin 11],
      lastInputs = [], lastHidden1 = [], lastHidden2 = [], lastOutputs = []\<rparr>"


section \<open>The game state (src/types, src/components/TRexGame.tsx)\<close>

text \<open>\<^verbatim>\<open>Number.isFinite\<close>\<close>

fun Number_isFinite :: "number \<Rightarrow> bool" where
  "Number_isFinite (Fin a) = True"
| "Number_isFinite _ = False"

datatype status = WAITING | RUNNING | JUMPING | DUCKING | CRASHED

datatype obstacle_type = CACTUS_SMALL | CACTUS_LARGE | PTERODACTYL

record collisionBox =
  box_x :: number
  box_y :: number
  box_width :: number
  box_height :: number

text \<open>
  The runner. \<open>duckUntilX\<close> is \<^verbatim>\<open>number | null\<close>, with \<open>None\<close> for \<^verbatim>\<open>null\<close>; the field
  \<^verbatim>\<open>id\<close> is \<open>trex_id\<close> here.
\<close>

record trex =
  trex_id :: nat
  xPos :: number
  yPos :: number
  groundYPos :: number
  minJumpHeight :: number
  jumping :: bool
  ducking :: bool
  jumpVelocity :: number
  reachedMinHeight :: bool
  speedDrop :: bool
  currentFrame :: nat
  timer :: number
  msPerFrame :: number
  currentAnimFrames :: "number list"
  status :: status
  alive :: bool
  lastLandTime :: number
  duckUntilX :: "number option"

text \<open>
  An obstacle, with the fields that the functions modelled here read or write: position,
  extent, type, the removal flag, the sub-hitboxes, and \<^verbatim>\<open>rewardedBy\<close>, the ids of the
  runners already rewarded for passing it. (Its animation, speed offset, gap and size
  fields are used by obstacle generation and drawing only.)
\<close>

record obstacle =
  ob_xPos :: number
  ob_yPos :: number
  ob_width :: number
  ob_height :: number
  ob_type :: obstacle_type
  ob_remove :: bool
  ob_collisionBoxes :: "collisionBox list"
  ob_rewardedBy :: "nat set"

text \<open>
  \<^verbatim>\<open>gameDataRef.current\<close>, without the canvas, the horizon and the clouds. \<open>prevDist\<close> is
  the property \<^verbatim>\<open>_prevDist\<close> that \<^verbatim>\<open>getGameInputsForNN\<close> keeps on its own function
  object: one value for the whole game, \<^verbatim>\<open>undefined\<close> until the first call.
\<close>

record gameData =
  runningTime :: number
  currentSpeed :: number
  distanceRan :: number
  game_msPerFrame :: number
  playing :: bool
  crashed :: bool
  activated :: bool
  tRexes :: "trex list"
  networks :: "neuralNetwork list"
  fitness :: "number list"
  generation :: nat
  bestFitness :: number
  bestWeights :: "number list option"
  obstacles :: "obstacle list"
  prevDist :: number

definition FPS :: number where "FPS = Fin 60"

definition ENABLE_NOCLIP :: bool where "ENABLE_NOCLIP = False"

definition GAME_CONFIG_MAX_SPEED :: number where "GAME_CONFIG_MAX_SPEED = Fin 13"
definition GAME_CONFIG_SPEED :: number where "GAME_CONFIG_SPEED = Fin 6"
definition GAME_CONFIG_ACCELERATION :: number where "GAME_CONFIG_ACCELERATION = Fin (1 / 1000)"
definition GAME_CONFIG_CLEAR_TIME :: number where "GAME_CONFIG_CLEAR_TIME = Fin 3000"

definition TREX_CONFIG_DROP_VELOCITY :: number where "TREX_CONFIG_DROP_VELOCITY = Fin (- 5)"
definition TREX_CONFIG_GRAVITY :: number where "TREX_CONFIG_GRAVITY = Fin (6 / 10)"
definition TREX_CONFIG_HEIGHT :: number where "TREX_CONFIG_HEIGHT = Fin 47"
definition TREX_CONFIG_HEIGHT_DUCK :: number where "TREX_CONFIG_HEIGHT_DUCK = Fin 25"
definition TREX_CONFIG_INIITAL_JUMP_VELOCITY :: number where
  "TREX_CONFIG_INIITAL_JUMP_VELOCITY = Fin (- 10)"
definition TREX_CONFIG_MAX_JUMP_HEIGHT :: number where "TREX_CONFIG_MAX_JUMP_HEIGHT = Fin 30"
definition TREX_CONFIG_START_X_POS :: number where "TREX_CONFIG_START_X_POS = Fin 50"
definition TREX_CONFIG_WIDTH :: number where "TREX_CONFIG_WIDTH = Fin 44"

definition mk_box :: "real \<Rightarrow> real \<Rightarrow> real \<Rightarrow> real \<Rightarrow> collisionBox" where
  "mk_box x y w h = \<lparr>box_x = Fin x, box_y = Fin y, box_width = Fin w, box_height = Fin h\<rparr>"

definition TREX_COLLISION_BOXES_RUNNING :: "collisionBox list" where
  "TREX_COLLISION_BOXES_RUNNING =
     [mk_box 22 0 17 16, mk_box 1 18 30 9, mk_box 10 35 14 8,
      mk_box 1 24 29 5, mk_box 5 30 21 4, mk_box 9 34 15 4]"

definition TREX_COLLISION_BOXES_DUCKING :: "collisionBox list" where
  "TREX_COLLISION_BOXES_DUCKING = [mk_box 1 18 55 25]"

text \<open>\<^verbatim>\<open>TREX_ANIM_FRAMES[status]\<close>: the frame offsets and the milliseconds per frame.\<close>

fun TREX_ANIM_FRAMES :: "status \<Rightarrow> number list \<times> number" where
  "TREX_ANIM_FRAMES WAITING = ([Fin 44, Fin 0], Fin (1000 / 3))"
| "TREX_ANIM_FRAMES RUNNING = ([Fin 88, Fin 132], Fin (1000 / 12))"
| "TREX_ANIM_FRAMES CRASHED = ([Fin 220], Fin (1000 / 60))"
| "TREX_ANIM_FRAMES JUMPING = ([Fin 0], Fin (1000 / 60))"
| "TREX_ANIM_FRAMES DUCKING = ([Fin 264, Fin 323], Fin (1000 / 8))"

definition updateTRexStatus :: "trex \<Rightarrow> status \<Rightarrow> trex" where
  "updateTRexStatus tRex s =
     (if status tRex \<noteq> s
      then tRex\<lparr>status := s, currentFrame := 0,
                 msPerFrame := snd (TREX_ANIM_FRAMES s),
                 currentAnimFrames := fst (TREX_ANIM_FRAMES s)\<rparr>
      else tRex)"

text \<open>
  \<^verbatim>\<open>handleRestart\<close>: the run is reset and every runner is put back on the ground, alive
  and waiting. Fitness, networks and the best-ever record are not touched.
\<close>

definition restart_trex :: "trex \<Rightarrow> trex" where
  "restart_trex tRex =
     updateTRexStatus
       (tRex\<lparr>yPos := groundYPos tRex, jumping := False, ducking := False,
              duckUntilX := None, jumpVelocity := Fin 0, currentFrame := 0,
              timer := Fin 0, alive := True\<rparr>)
       WAITING"

definition handleRestart :: "gameData \<Rightarrow> gameData" where
  "handleRestart g =
     g\<lparr>playing := False, crashed := False, activated := False,
       runningTime := Fin 0, distanceRan := Fin 0, currentSpeed := GAME_CONFIG_SPEED,
       obstacles := [], tRexes := map restart_trex (tRexes g)\<rparr>"

text \<open>\<^verbatim>\<open>handleStart\<close>: the run starts and every runner starts running.\<close>

definition handleStart :: "gameData \<Rightarrow> gameData" where
  "handleStart g =
     g\<lparr>playing := True, crashed := False, activated := True,
       tRexes := map (\<lambda>tRex. updateTRexStatus tRex RUNNING) (tRexes g)\<rparr>"

section \<open>The genetic algorithm (src/components/TRexGame.tsx)\<close>

text \<open>
  \<^verbatim>\<open>xs[i]\<close> on an array of objects: \<open>None\<close> stands for \<^verbatim>\<open>undefined\<close>. A method call on
  \<^verbatim>\<open>undefined\<close> throws; in this section a function that throws, or that does not
  return because a loop does not end, has the value \<open>None\<close>.
\<close>

definition nth_opt :: "'a list \<Rightarrow> nat \<Rightarrow> 'a option" where
  "nth_opt xs i = (if i < length xs then Some (xs ! i) else None)"

definition ok :: "error + 'a \<Rightarrow> 'a option" where
  "ok r = (case r of Inl e \<Rightarrow> None | Inr x \<Rightarrow> Some x)"

text \<open>\<^verbatim>\<open>Math.floor(Math.random() * n)\<close> for an array length \<open>n\<close>, at draw position \<open>p\<close>.\<close>

definition random_index :: "rng \<Rightarrow> nat \<Rightarrow> nat \<Rightarrow> nat" where
  "random_index r p n = nat \<lfloor>r p * real n\<rfloor>"

text \<open>
  \<^verbatim>\<open>argmax\<close>: the index of the first largest value; \<^verbatim>\<open>values[i] > best\<close> is false when
  either side is NaN or undefined.
\<close>

definition argmax :: "number list \<Rightarrow> nat" where
  "argmax values =
     fst (fold (\<lambda>i (idx, best). if best < js_nth values i then (i, js_nth values i)
                                 else (idx, best))
            [1..<length values] (0, js_nth values 0))"

text \<open>
  The ranking \<^verbatim>\<open>fitness.map((f, i) => [f, i]).sort((a, b) => b[0] - a[0])\<close>: a stable
  sort by descending fitness, written as insertion of each pair, from the last to the
  first, in front of the first pair it does not have to follow. (Where the comparator is
  inconsistent, with a NaN fitness, JavaScript leaves the order to the implementation.)
\<close>

fun insert_ranked :: "number \<times> nat \<Rightarrow> (number \<times> nat) list \<Rightarrow> (number \<times> nat) list" where
  "insert_ranked a [] = [a]"
| "insert_ranked a (b # bs) =
     (if Fin 0 < fst b - fst a then b # insert_ranked a bs else a # b # bs)"

definition rank_indices :: "number list \<Rightarrow> nat list" where
  "rank_indices fit = map snd (foldr insert_ranked (zip fit [0..<length fit]) [])"

text \<open>
  \<^verbatim>\<open>buildParentsPool\<close>: for each of the \<open>n\<close> slots a tournament of \<open>k\<close> draws; the pool
  holds the winners (an out-of-range index would put \<^verbatim>\<open>undefined\<close> there).
\<close>

definition tournament :: "number list \<Rightarrow> nat \<Rightarrow> nat \<Rightarrow> rng \<Rightarrow> nat \<Rightarrow> nat \<times> nat" where
  "tournament fit n k r p =
     fold (\<lambda>t (bestIdx, q).
             let challenger = random_index r q n in
             (if js_nth fit bestIdx < js_nth fit challenger then challenger else bestIdx,
              Suc q))
       [1..<k] (random_index r p n, Suc p)"

definition buildParentsPool ::
  "neuralNetwork list \<Rightarrow> number list \<Rightarrow> nat \<Rightarrow> rng \<Rightarrow> nat \<Rightarrow> neuralNetwork option list \<times> nat" where
  "buildParentsPool nets fit k r p =
     fold (\<lambda>i (pool, q).
             let (bestIdx, q') = tournament fit (length nets) k r q
             in (pool @ [nth_opt nets bestIdx], q'))
       [0..<length nets] ([], p)"

text \<open>
  \<^verbatim>\<open>crossoverSinglePoint\<close>: \<^verbatim>\<open>a.slice(0, point).concat(b.slice(point))\<close> with
  \<^verbatim>\<open>point = 1 + Math.floor(Math.random() * (len - 1))\<close>; no draw when \<open>len\<close> is 0.
\<close>

definition crossover_point :: "rng \<Rightarrow> nat \<Rightarrow> nat \<Rightarrow> nat" where
  "crossover_point r p len = 1 + nat \<lfloor>r p * real (len - 1)\<rfloor>"

definition crossoverSinglePoint ::
  "number list \<Rightarrow> number list \<Rightarrow> rng \<Rightarrow> nat \<Rightarrow> number list \<times> nat" where
  "crossoverSinglePoint a b r p =
     (let len = min (length a) (length b) in
      if len = 0 then ([], p)
      else let point = crossover_point r p len
           in (take point a @ drop point b, Suc p))"

text \<open>
  \<^verbatim>\<open>randn\<close> (Box-Muller). Each of the two loops \<^verbatim>\<open>while (u === 0) u = Math.random()\<close>
  draws until the draw is not zero; it does not end on a source that only yields zeros.
\<close>

partial_function (option) draw_nonzero :: "rng \<Rightarrow> nat \<Rightarrow> (real \<times> nat) option" where
  "draw_nonzero r p = (if r p = 0 then draw_nonzero r (Suc p) else Some (r p, Suc p))"

fun Math_log :: "number \<Rightarrow> number" where
  "Math_log (Fin a) = (if a < 0 then NaN else if a = 0 then NInf else Fin (ln a))"
| "Math_log PInf = PInf"
| "Math_log _ = NaN"

fun Math_sqrt :: "number \<Rightarrow> number" where
  "Math_sqrt (Fin a) = (if a < 0 then NaN else Fin (sqrt a))"
| "Math_sqrt PInf = PInf"
| "Math_sqrt _ = NaN"

fun Math_cos :: "number \<Rightarrow> number" where
  "Math_cos (Fin a) = Fin (cos a)"
| "Math_cos _ = NaN"

definition randn :: "rng \<Rightarrow> nat \<Rightarrow> (number \<times> nat) option" where
  "randn r p =
     (case draw_nonzero r p of None \<Rightarrow> None
      | Some (u, p1) \<Rightarrow>
     (case draw_nonzero r p1 of None \<Rightarrow> None
      | Some (v, p2) \<Rightarrow>
         Some (Math_sqrt (Fin (- 2) * Math_log (Fin u)) * Math_cos (Fin 2 * Fin pi * Fin v),
               p2)))"

text \<open>
  \<^verbatim>\<open>mutateWeights\<close>: \<^verbatim>\<open>weights.map(w => Math.random() < mutationRate ? w + randn() * sigma : w)\<close>,
  the weights in order.
\<close>

fun mutateWeights ::
  "number list \<Rightarrow> real \<Rightarrow> real \<Rightarrow> rng \<Rightarrow> nat \<Rightarrow> (number list \<times> nat) option" where
  "mutateWeights [] mutationRate sigma r p = Some ([], p)"
| "mutateWeights (w # ws) mutationRate sigma r p =
     (if r p < mutationRate
      then (case randn r (Suc p) of None \<Rightarrow> None
            | Some (g, p1) \<Rightarrow>
           (case mutateWeights ws mutationRate sigma r p1 of None \<Rightarrow> None
            | Some (ws', p2) \<Rightarrow> Some ((w + g * Fin sigma) # ws', p2)))
      else (case mutateWeights ws mutationRate sigma r (Suc p) of None \<Rightarrow> None
            | Some (ws', p2) \<Rightarrow> Some (w # ws', p2)))"

text \<open>
  The diversity loop of \<^verbatim>\<open>handleGenerationEnd\<close>:
  \<^verbatim>\<open>for (i = 0; i < randomSurvivors && nextNetworks.length < populationSize; i++)\<close>,
  cloning \<^verbatim>\<open>networks[shuffledIndices[i]]\<close> unless that index is the best one.
\<close>

function survivors_loop ::
  "neuralNetwork list \<Rightarrow> nat \<Rightarrow> nat list \<Rightarrow> nat \<Rightarrow> nat \<Rightarrow> neuralNetwork list \<Rightarrow> rng \<Rightarrow> nat
   \<Rightarrow> (neuralNetwork list \<times> nat) option" where
  "survivors_loop nets bestIdx shuffledIndices randomSurvivors i nextNetworks r p =
     (if i < randomSurvivors \<and> length nextNetworks < length nets
      then (case nth_opt shuffledIndices i of
              None \<Rightarrow> None
            | Some randomIdx \<Rightarrow>
                if randomIdx \<noteq> bestIdx
                then (case nth_opt nets randomIdx of None \<Rightarrow> None
                      | Some net \<Rightarrow>
                     (case ok (clone net r p) of None \<Rightarrow> None
                      | Some (randomNet, p') \<Rightarrow>
                          survivors_loop nets bestIdx shuffledIndices randomSurvivors (Suc i)
                            (nextNetworks @ [randomNet]) r p'))
                else survivors_loop nets bestIdx shuffledIndices randomSurvivors (Suc i)
                       nextNetworks r p)
      else Some (nextNetworks, p))"
  by pat_completeness auto
termination
  by (relation "measure (\<lambda>(nets, bestIdx, sh, randomSurvivors, i, nx, r, p). randomSurvivors - i)")
    auto

text \<open>
  One offspring: two parents drawn from the pool, their flat weights crossed and mutated
  (rate 0.05, sigma 0.02), and stored in a fresh network of the default architecture.
\<close>

definition make_child :: "neuralNetwork option list \<Rightarrow> rng \<Rightarrow> nat \<Rightarrow> (neuralNetwork \<times> nat) option" where
  "make_child parentsPool r p =
     (case nth_opt parentsPool (random_index r p (length parentsPool)) of
        None \<Rightarrow> None | Some None \<Rightarrow> None
      | Some (Some p1) \<Rightarrow>
     (case nth_opt parentsPool (random_index r (Suc p) (length parentsPool)) of
        None \<Rightarrow> None | Some None \<Rightarrow> None
      | Some (Some p2) \<Rightarrow>
     (case ok (getWeights p1) of None \<Rightarrow> None | Some w1 \<Rightarrow>
     (case ok (getWeights p2) of None \<Rightarrow> None | Some w2 \<Rightarrow>
      let (childW, q) = crossoverSinglePoint w1 w2 r (Suc (Suc p)) in
     (case mutateWeights childW (5 / 100) (2 / 100) r q of None \<Rightarrow> None
      | Some (mutated, q') \<Rightarrow>
      let (child, q'') = new_NeuralNetwork DEFAULT_ARCHITECTURE r q' in
     (case ok (setWeights child mutated) of None \<Rightarrow> None
      | Some child' \<Rightarrow> Some (child', q'')))))))"

text \<open>The loop \<^verbatim>\<open>while (nextNetworks.length < populationSize)\<close>.\<close>

function offspring_loop ::
  "neuralNetwork option list \<Rightarrow> nat \<Rightarrow> neuralNetwork list \<Rightarrow> rng \<Rightarrow> nat
   \<Rightarrow> (neuralNetwork list \<times> nat) option" where
  "offspring_loop parentsPool populationSize nextNetworks r p =
     (if length nextNetworks < populationSize
      then (case make_child parentsPool r p of None \<Rightarrow> None
            | Some (child, p') \<Rightarrow>
                offspring_loop parentsPool populationSize (nextNetworks @ [child]) r p')
      else Some (nextNetworks, p))"
  by pat_completeness auto
termination
  by (relation "measure (\<lambda>(pool, populationSize, nx, r, p). populationSize - length nx)") auto

text \<open>
  \<^verbatim>\<open>handleGenerationEnd\<close>. The shuffle
  \<^verbatim>\<open>Array.from({length: n}, (_, i) => i).sort(() => Math.random() - 0.5)\<close> has an
  implementation-defined outcome: the resulting array \<open>shuffledIndices\<close> and the number
  \<open>shuffleDraws\<close> of draws the sort took are parameters. The best-ever record is updated
  first; the panel update and the checkpoint requests (both inside \<^verbatim>\<open>try\<close>, both outside
  the game state) are left out. \<open>N * 0.1\<close> is rounded down as \<open>N div 10\<close>.
\<close>

definition store_best :: "gameData \<Rightarrow> number \<Rightarrow> number list \<Rightarrow> gameData" where
  "store_best g bestFit bestW =
     (if bestFitness g < bestFit
      then g\<lparr>bestFitness := bestFit, bestWeights := Some bestW\<rparr>
      else g)"

definition next_generation ::
  "neuralNetwork list \<Rightarrow> number list \<Rightarrow> nat \<Rightarrow> neuralNetwork \<Rightarrow> nat list \<Rightarrow> nat \<Rightarrow> rng \<Rightarrow> nat
   \<Rightarrow> (neuralNetwork list \<times> nat) option" where
  "next_generation nets fit bestIdx best shuffledIndices shuffleDraws r p =
     (let populationSize = length nets;
          (parentsPool, p1) = buildParentsPool nets fit (max 2 (populationSize div 4)) r p
      in case ok (clone best r p1) of None \<Rightarrow> None
         | Some (elite, p2) \<Rightarrow>
        (case survivors_loop nets bestIdx shuffledIndices (populationSize div 10) 0 [elite]
                r (p2 + shuffleDraws) of None \<Rightarrow> None
         | Some (nextNetworks, p3) \<Rightarrow>
             offspring_loop parentsPool populationSize nextNetworks r p3))"

definition handleGenerationEnd ::
  "gameData \<Rightarrow> nat list \<Rightarrow> nat \<Rightarrow> rng \<Rightarrow> nat \<Rightarrow> (gameData \<times> nat) option" where
  "handleGenerationEnd g shuffledIndices shuffleDraws r p =
     (case nth_opt (rank_indices (fitness g)) 0 of None \<Rightarrow> None
      | Some bestIdx \<Rightarrow>
     (case nth_opt (networks g) bestIdx of None \<Rightarrow> None
      | Some best \<Rightarrow>
     (case ok (getWeights best) of None \<Rightarrow> None
      | Some bestW \<Rightarrow>
      let g1 = store_best g (js_nth (fitness g) bestIdx) bestW in
     (case next_generation (networks g) (fitness g) bestIdx best shuffledIndices shuffleDraws r p
      of None \<Rightarrow> None
      | Some (nextNetworks, p') \<Rightarrow>
          Some (handleRestart
                  (g1\<lparr>networks := nextNetworks,
                      fitness := replicate (length nextNetworks) (Fin 0),
                      generation := generation g1 + 1\<rparr>),
                p')))))"

subsection \<open>Auxiliary notions for the genetic algorithm\<close>

text \<open>
  What is assumed of \<^verbatim>\<open>Math.random()\<close>: every draw lies in \<open>[0, 1)\<close> (\<open>valid_rng\<close>), and
  the draws are not zero from some position on for ever (\<open>fair_rng\<close>), so that the
  rejection loops of \<^verbatim>\<open>randn\<close> end. \<open>constant_draws c\<close> is the source whose every draw
  is \<open>c\<close>.
\<close>

definition valid_rng :: "rng \<Rightarrow> bool" where
  "valid_rng r = (\<forall>k. 0 \<le> r k \<and> r k < 1)"

definition fair_rng :: "rng \<Rightarrow> bool" where
  "fair_rng r = (\<forall>k. \<exists>j\<ge>k. r j \<noteq> 0)"

definition constant_draws :: "real \<Rightarrow> rng" where
  "constant_draws c = (\<lambda>p. c)"

text \<open>
  What is assumed of the shuffled index array: it has one entry per network and every
  entry is an index of the population (a permutation of the indices is such an array).
\<close>

definition valid_shuffle :: "nat \<Rightarrow> nat list \<Rightarrow> bool" where
  "valid_shuffle n sh = (length sh = n \<and> list_all (\<lambda>i. i < n) sh)"


section \<open>One tick of the simulation (src/components/TRexGame.tsx)\<close>

subsection \<open>The nearest obstacle\<close>

text \<open>
  The loop at the head of \<^verbatim>\<open>update\<close>: among the obstacles not removed and right of the
  runners' start position, the first one at the least distance; \<^verbatim>\<open>Infinity\<close> when
  there is none.
\<close>

definition closest_step :: "obstacle \<Rightarrow> obstacle option \<times> number \<Rightarrow> obstacle option \<times> number" where
  "closest_step ob acc =
     (if \<not> ob_remove ob \<and> TREX_CONFIG_START_X_POS < ob_xPos ob
      then let d = ob_xPos ob - TREX_CONFIG_START_X_POS
           in if d < snd acc then (Some ob, d) else acc
      else acc)"

definition global_closest :: "obstacle list \<Rightarrow> obstacle option \<times> number" where
  "global_closest obs = fold closest_step obs (None, PInf)"

subsection \<open>Input encoding\<close>

record gameInputs =
  obstacleDistance :: number
  obstacleHeight :: number
  dinoYVelocity :: number
  gameSpeed :: number
  isOnGround :: number
  timeToImpact :: number
  obstaclePresent :: number
  isPtero :: number
  pteroRelHeight :: number
  invDistance :: number
  dDistance :: number
  enhancedDuckSignal :: number

text \<open>The array that \<^verbatim>\<open>update\<close> passes to \<^verbatim>\<open>predict\<close>.\<close>

definition inputs_vector :: "gameInputs \<Rightarrow> number list" where
  "inputs_vector gi =
     [obstacleDistance gi, obstacleHeight gi, dinoYVelocity gi, gameSpeed gi, isOnGround gi,
      timeToImpact gi, obstaclePresent gi, isPtero gi, pteroRelHeight gi, invDistance gi,
      dDistance gi, enhancedDuckSignal gi]"

text \<open>
  The fallback of \<^verbatim>\<open>getGameInputsForNN\<close> when no nearest obstacle is passed in: it
  searches the obstacles right of the runner itself.
\<close>

definition own_closest_step :: "trex \<Rightarrow> obstacle \<Rightarrow> obstacle option \<times> number \<Rightarrow> obstacle option \<times> number" where
  "own_closest_step tRex ob acc =
     (if xPos tRex < ob_xPos ob
      then let distance = ob_xPos ob - xPos tRex
           in if distance < snd acc then (Some ob, distance) else acc
      else acc)"

definition resolve_closest ::
  "gameData \<Rightarrow> trex \<Rightarrow> obstacle option \<Rightarrow> number \<Rightarrow> obstacle option \<times> number" where
  "resolve_closest g tRex sharedClosest sharedMinDistance =
     (let minDistance = (if Number_isFinite sharedMinDistance then sharedMinDistance else PInf)
      in case sharedClosest of
           Some ob \<Rightarrow> (Some ob, minDistance)
         | None \<Rightarrow> fold (own_closest_step tRex) (obstacles g) (None, minDistance))"

text \<open>
  Feature 11. \<open>prev\<close> is the stored \<^verbatim>\<open>_prevDist\<close> if it is a number, the current distance
  otherwise (the first call); the feature is the clamped difference when there is an
  obstacle and 0 when there is none; the value stored for the next call is the current
  distance, or \<^verbatim>\<open>Infinity\<close> when there is no obstacle.
\<close>

definition distance_delta :: "number \<Rightarrow> obstacle option \<Rightarrow> number \<Rightarrow> number \<times> number" where
  "distance_delta stored closestObstacle minDistance =
     (let prev = (if stored \<noteq> Undefined then stored else minDistance);
          deltaPerFrame = prev - minDistance;
          deltaPerSecond = deltaPerFrame * FPS
      in (case closestObstacle of
            Some ob \<Rightarrow> Math_max (Fin (- 1)) (Math_min (Fin 1) (deltaPerSecond / Fin 600))
          | None \<Rightarrow> Fin 0,
          case closestObstacle of Some ob \<Rightarrow> minDistance | None \<Rightarrow> PInf))"

text \<open>
  \<^verbatim>\<open>getGameInputsForNN\<close>: the twelve features of one runner, and the new value of
  \<^verbatim>\<open>_prevDist\<close>.
\<close>

definition getGameInputsForNN ::
  "gameData \<Rightarrow> trex \<Rightarrow> obstacle option \<Rightarrow> number \<Rightarrow> gameInputs \<times> number" where
  "getGameInputsForNN g tRex sharedClosest sharedMinDistance =
     (let (closestObstacle, minDistance) = resolve_closest g tRex sharedClosest sharedMinDistance;
          near = (case closestObstacle of
                    Some ob \<Rightarrow> Fin 1 - Math_min (minDistance / Fin 300) (Fin 1)
                  | None \<Rightarrow> Fin 0);
          tRexHeight = (if ducking tRex then TREX_CONFIG_HEIGHT_DUCK else TREX_CONFIG_HEIGHT);
          pxPerSecond = currentSpeed g * FPS;
          ptero = (case closestObstacle of
                     Some ob \<Rightarrow> if ob_type ob = PTERODACTYL then Some ob else None
                   | None \<Rightarrow> None);
          (delta, stored') = distance_delta (prevDist g) closestObstacle minDistance
      in (\<lparr>obstacleDistance = near,
           obstacleHeight = (case closestObstacle of
                               Some ob \<Rightarrow> Math_min (ob_height ob / tRexHeight) (Fin 1)
                             | None \<Rightarrow> Fin 0),
           dinoYVelocity = (jumpVelocity tRex + Fin 20) / Fin 40,
           gameSpeed = currentSpeed g / GAME_CONFIG_MAX_SPEED,
           isOnGround = (if groundYPos tRex \<le> yPos tRex then Fin 1 else Fin 0),
           timeToImpact = (case closestObstacle of
                             Some ob \<Rightarrow>
                               Math_min (minDistance / Math_max pxPerSecond (Fin (1 / 1000)))
                                 (Fin 1)
                           | None \<Rightarrow> Fin 1),
           obstaclePresent = (case closestObstacle of
                                Some ob \<Rightarrow> if minDistance < Fin 100 then Fin 1 else Fin 0
                              | None \<Rightarrow> Fin 0),
           isPtero = (case ptero of Some ob \<Rightarrow> Fin 1 | None \<Rightarrow> Fin 0),
           pteroRelHeight = (case ptero of
                               Some ob \<Rightarrow>
                                 Math_max (Fin 0)
                                   (Math_min ((groundYPos tRex - ob_yPos ob) /
                                              (groundYPos tRex - Fin 50)) (Fin 1))
                             | None \<Rightarrow> Fin 0),
           invDistance = near,
           dDistance = delta,
           enhancedDuckSignal = (case ptero of
                                   Some ob \<Rightarrow>
                                     let pteroBottom = ob_yPos ob + ob_height ob;
                                         tRexDuckTop = groundYPos tRex - TREX_CONFIG_HEIGHT_DUCK;
                                         isLow = tRexDuckTop < pteroBottom;
                                         isClose = minDistance < Fin 120
                                     in if isLow \<and> isClose then Fin 1 else Fin 0
                                 | None \<Rightarrow> Fin 0)\<rparr>,
          stored'))"

subsection \<open>Action selection and the runner's state machine\<close>

text \<open>
  A low pterodactyl: its underside is below the top of the ducking runner.
\<close>

definition low_ptero :: "trex \<Rightarrow> obstacle \<Rightarrow> bool" where
  "low_ptero tRex ob =
     (let pteroBottom = ob_yPos ob + ob_height ob;
          tRexDuckTop = groundYPos tRex - TREX_CONFIG_HEIGHT_DUCK
      in tRexDuckTop < pteroBottom)"

text \<open>
  \<^verbatim>\<open>argmax\<close> of the outputs; for a low pterodactyl nearer than 80 the duck output is
  raised by 0.5 first.
\<close>

definition select_action :: "number list \<Rightarrow> trex \<Rightarrow> obstacle option \<Rightarrow> number \<Rightarrow> nat" where
  "select_action outputs tRex globalClosest globalMinDist =
     (case globalClosest of
        Some ob \<Rightarrow>
          if ob_type ob = PTERODACTYL \<and> low_ptero tRex ob \<and> globalMinDist < Fin 80
          then argmax (js_update outputs 1 (js_nth outputs 1 + Fin (1 / 2)))
          else argmax outputs
      | None \<Rightarrow> argmax outputs)"

definition startTRexJump :: "gameData \<Rightarrow> trex \<Rightarrow> trex" where
  "startTRexJump g tRex =
     (if \<not> jumping tRex \<and> \<not> ducking tRex
      then (updateTRexStatus tRex JUMPING)
             \<lparr>jumpVelocity := TREX_CONFIG_INIITAL_JUMP_VELOCITY - currentSpeed g / Fin 10,
              jumping := True, reachedMinHeight := False, speedDrop := False\<rparr>
      else tRex)"

text \<open>The truth value of a \<^verbatim>\<open>number | null\<close>: false for null, 0 and NaN.\<close>

definition truthy :: "number option \<Rightarrow> bool" where
  "truthy x = (case x of None \<Rightarrow> False | Some v \<Rightarrow> v \<noteq> Fin 0 \<and> \<not> is_nan v)"

definition release_duck :: "trex \<Rightarrow> trex" where
  "release_duck tRex = updateTRexStatus (tRex\<lparr>ducking := False, duckUntilX := None\<rparr>) RUNNING"

definition apply_action :: "gameData \<Rightarrow> trex \<Rightarrow> nat \<Rightarrow> obstacle option \<Rightarrow> number \<Rightarrow> trex" where
  "apply_action g tRex actionIdx globalClosest globalMinDist =
     (if actionIdx = 0 \<and> \<not> jumping tRex \<and> \<not> ducking tRex then startTRexJump g tRex
      else if actionIdx = 1 \<and> \<not> jumping tRex then
        (case globalClosest of
           Some ob \<Rightarrow>
             updateTRexStatus
               (tRex\<lparr>ducking := True,
                      duckUntilX := Some (ob_xPos ob + ob_width ob + Fin 50)\<rparr>)
               DUCKING
         | None \<Rightarrow> tRex)
      else if actionIdx = 1 \<and> ducking tRex then
        (case globalClosest of
           Some ob \<Rightarrow>
             if ob_type ob = PTERODACTYL \<and> low_ptero tRex ob
             then tRex\<lparr>duckUntilX :=
                          Some (Math_max (if truthy (duckUntilX tRex) then the (duckUntilX tRex)
                                          else Fin 0)
                                  (ob_xPos ob + ob_width ob + Fin 50))\<rparr>
             else tRex
         | None \<Rightarrow> tRex)
      else if actionIdx = 2 \<and> \<not> jumping tRex then
        (if ducking tRex
         then if truthy (duckUntilX tRex) \<and> the (duckUntilX tRex) < xPos tRex
              then release_duck tRex
              else if globalClosest = None \<or> Fin 150 < globalMinDist then release_duck tRex
              else tRex
         else tRex)
      else tRex)"

subsection \<open>Fitness shaping\<close>

text \<open>
  The reward for the chosen action, as the change it makes to the runner's fitness (the
  identity where the source assigns nothing).
\<close>

definition correct_action :: "gameData \<Rightarrow> trex \<Rightarrow> obstacle \<Rightarrow> number \<Rightarrow> nat" where
  "correct_action g tRex ob minDist =
     (if ob_type ob = PTERODACTYL then (if low_ptero tRex ob then 1 else 0)
      else if minDist / (currentSpeed g * FPS / Fin 1000) < Fin (3 / 10) then 0
      else 2)"

definition action_reward ::
  "gameData \<Rightarrow> trex \<Rightarrow> nat \<Rightarrow> obstacle option \<Rightarrow> number \<Rightarrow> number \<Rightarrow> number" where
  "action_reward g tRex actionIdx globalClosest globalMinDist f =
     (let minDist = (if Number_isFinite globalMinDist then globalMinDist else PInf) in
      case globalClosest of
        Some ob \<Rightarrow>
          if minDist < Fin 100
          then let correctAction = correct_action g tRex ob minDist in
               if actionIdx = correctAction
               then if correctAction = 1 \<and> ob_type ob = PTERODACTYL then f + Fin 100
                    else f + Fin 20
               else if correctAction = 1 \<and> actionIdx \<noteq> 1 \<and> ob_type ob = PTERODACTYL
                    then f - Fin 50
                    else f - Fin 15
          else if actionIdx = 0 then f - Fin 20
               else if actionIdx = 1 then f - Fin 2
               else f
      | None \<Rightarrow>
          if actionIdx = 2 then f + Fin 3
          else if actionIdx = 0 then f - Fin 20
          else if actionIdx = 1 then f - Fin 5
          else f)"

text \<open>
  The reward for passing an obstacle, once per obstacle and runner: the loop over the
  obstacles carries the runner's fitness and rebuilds the obstacle list with the runner
  marked.
\<close>

definition pass_step :: "trex \<Rightarrow> obstacle \<Rightarrow> number \<times> obstacle list \<Rightarrow> number \<times> obstacle list" where
  "pass_step tRex ob acc =
     (if ob_remove ob then (fst acc, snd acc @ [ob])
      else if ob_xPos ob + ob_width ob < xPos tRex
      then if trex_id tRex \<in> ob_rewardedBy ob then (fst acc, snd acc @ [ob])
           else (fst acc + Fin 30,
                 snd acc @ [ob\<lparr>ob_rewardedBy := insert (trex_id tRex) (ob_rewardedBy ob)\<rparr>])
      else (fst acc, snd acc @ [ob]))"

definition pass_rewards :: "trex \<Rightarrow> obstacle list \<Rightarrow> number \<Rightarrow> number \<times> obstacle list" where
  "pass_rewards tRex obs f = fold (pass_step tRex) obs (f, [])"

subsection \<open>The control loop of \<^verbatim>\<open>update\<close>\<close>

text \<open>
  The body of \<^verbatim>\<open>for (i = 0; i < tRexes.length; i++)\<close>: a dead runner is skipped by
  \<^verbatim>\<open>continue\<close>; for a live one the features are computed, its own network is asked, the
  action is applied and the fitness entry \<open>i\<close> is raised by the survival reward, the
  action reward, the pass rewards and the speed bonus, in this order. An error thrown by
  \<^verbatim>\<open>predict\<close> leaves \<^verbatim>\<open>update\<close>. (The call that feeds the first runner's inputs to the
  panel's network does not touch the game state.)
\<close>

definition control_trex ::
  "gameData \<Rightarrow> nat \<Rightarrow> obstacle option \<Rightarrow> number \<Rightarrow> number \<Rightarrow> error + gameData" where
  "control_trex g i globalClosest globalMinDist deltaTime =
     (let tRex = tRexes g ! i in
      if \<not> alive tRex then Inr g
      else
        let (inputs, stored') = getGameInputsForNN g tRex globalClosest globalMinDist in
        and_then (predict (networks g ! i) (inputs_vector inputs)) (\<lambda>(outputs, net').
        let actionIdx = select_action outputs tRex globalClosest globalMinDist;
            tRex' = apply_action g tRex actionIdx globalClosest globalMinDist;
            f1 = js_nth (fitness g) i + deltaTime * Fin (1 / 10);
            f2 = action_reward g tRex' actionIdx globalClosest globalMinDist f1;
            (f3, obs') = pass_rewards tRex' (obstacles g) f2;
            speedBonus = currentSpeed g / GAME_CONFIG_MAX_SPEED * Fin 2;
            f4 = f3 + speedBonus
        in Inr (g\<lparr>tRexes := (tRexes g)[i := tRex'],
                  networks := (networks g)[i := net'],
                  fitness := js_update (fitness g) i f4,
                  obstacles := obs',
                  prevDist := stored'\<rparr>)))"

definition control_loop :: "gameData \<Rightarrow> obstacle option \<Rightarrow> number \<Rightarrow> number \<Rightarrow> error + gameData" where
  "control_loop g globalClosest globalMinDist deltaTime =
     fold (\<lambda>i acc. and_then acc (\<lambda>g'. control_trex g' i globalClosest globalMinDist deltaTime))
       [0..<length (tRexes g)] (Inr g)"

subsection \<open>Jump physics\<close>

definition endTRexJump :: "trex \<Rightarrow> trex" where
  "endTRexJump tRex =
     (if reachedMinHeight tRex \<and> jumpVelocity tRex < TREX_CONFIG_DROP_VELOCITY
      then tRex\<lparr>jumpVelocity := TREX_CONFIG_DROP_VELOCITY\<rparr>
      else tRex)"

definition updateTRexJump :: "trex \<Rightarrow> number \<Rightarrow> number \<Rightarrow> trex" where
  "updateTRexJump tRex deltaTime now =
     (let framesElapsed = deltaTime / msPerFrame tRex;
          t1 = tRex\<lparr>yPos := yPos tRex + Math_round (jumpVelocity tRex * framesElapsed),
                     jumpVelocity := jumpVelocity tRex + TREX_CONFIG_GRAVITY * framesElapsed\<rparr>;
          t2 = (if yPos t1 < minJumpHeight t1 \<or> speedDrop t1
                then t1\<lparr>reachedMinHeight := True\<rparr> else t1);
          t3 = (if yPos t2 < TREX_CONFIG_MAX_JUMP_HEIGHT \<or> speedDrop t2
                then endTRexJump t2 else t2)
      in if groundYPos t3 \<le> yPos t3
         then updateTRexStatus
                (t3\<lparr>yPos := groundYPos t3, jumping := False, jumpVelocity := Fin 0,
                    reachedMinHeight := False, speedDrop := False, lastLandTime := now\<rparr>)
                RUNNING
         else t3)"

definition update_one_trex :: "number \<Rightarrow> number \<Rightarrow> trex \<Rightarrow> trex" where
  "update_one_trex deltaTime now tRex =
     (if \<not> alive tRex then tRex
      else
        let t1 = tRex\<lparr>timer := timer tRex + deltaTime\<rparr>;
            t2 = (if msPerFrame t1 \<le> timer t1
                  then t1\<lparr>currentFrame :=
                             (if Suc (currentFrame t1) = length (currentAnimFrames t1) then 0
                              else currentFrame t1 + 1),
                           timer := Fin 0\<rparr>
                  else t1)
        in if jumping t2 then updateTRexJump t2 deltaTime now else t2)"

definition updateAllTRexes :: "gameData \<Rightarrow> number \<Rightarrow> number \<Rightarrow> gameData" where
  "updateAllTRexes g deltaTime now = g\<lparr>tRexes := map (update_one_trex deltaTime now) (tRexes g)\<rparr>"

subsection \<open>Collision detection\<close>

definition boxes_overlap :: "collisionBox \<Rightarrow> collisionBox \<Rightarrow> bool" where
  "boxes_overlap a b =
     (box_x a < box_x b + box_width b \<and> box_x b < box_x a + box_width a \<and>
      box_y a < box_y b + box_height b \<and> box_y b < box_y a + box_height a)"

definition adjust_box :: "number \<Rightarrow> number \<Rightarrow> collisionBox \<Rightarrow> collisionBox" where
  "adjust_box x y b =
     \<lparr>box_x = x + box_x b, box_y = y + box_y b, box_width = box_width b,
      box_height = box_height b\<rparr>"

text \<open>
  The two nested loops over the runner's and the obstacle's sub-hitboxes. Each returns
  whether it found an overlapping pair, and the pairs it compared, in order: the
  \<^verbatim>\<open>return\<close> at the first overlapping pair ends both loops.
\<close>

fun check_obstacle_boxes ::
  "trex \<Rightarrow> obstacle \<Rightarrow> collisionBox \<Rightarrow> collisionBox list
   \<Rightarrow> (collisionBox \<times> collisionBox) list \<times> bool" where
  "check_obstacle_boxes tRex obstacle tRexBox [] = ([], False)"
| "check_obstacle_boxes tRex obstacle tRexBox (obstBox # rest) =
     (if boxes_overlap (adjust_box (xPos tRex) (yPos tRex) tRexBox)
           (adjust_box (ob_xPos obstacle) (ob_yPos obstacle) obstBox)
      then ([(tRexBox, obstBox)], True)
      else let (checked, hit) = check_obstacle_boxes tRex obstacle tRexBox rest
           in ((tRexBox, obstBox) # checked, hit))"

fun check_trex_boxes ::
  "trex \<Rightarrow> obstacle \<Rightarrow> collisionBox list \<Rightarrow> (collisionBox \<times> collisionBox) list \<times> bool" where
  "check_trex_boxes tRex obstacle [] = ([], False)"
| "check_trex_boxes tRex obstacle (tRexBox # rest) =
     (let (checked, hit) =
            check_obstacle_boxes tRex obstacle tRexBox (ob_collisionBoxes obstacle)
      in if hit then (checked, True)
         else let (checked', hit') = check_trex_boxes tRex obstacle rest
              in (checked @ checked', hit'))"

text \<open>The test on the two whole boxes, each inset by one pixel.\<close>

definition outer_bounds_overlap :: "trex \<Rightarrow> obstacle \<Rightarrow> bool" where
  "outer_bounds_overlap tRex obstacle =
     (let tRexHeight = (if ducking tRex then TREX_CONFIG_HEIGHT_DUCK else TREX_CONFIG_HEIGHT);
          tRexBox = \<lparr>box_x = xPos tRex + Fin 1, box_y = yPos tRex + Fin 1,
                     box_width = TREX_CONFIG_WIDTH - Fin 2, box_height = tRexHeight - Fin 2\<rparr>;
          obstacleBox = \<lparr>box_x = ob_xPos obstacle + Fin 1, box_y = ob_yPos obstacle + Fin 1,
                         box_width = ob_width obstacle - Fin 2,
                         box_height = ob_height obstacle - Fin 2\<rparr>
      in boxes_overlap tRexBox obstacleBox)"

definition trex_collision_boxes :: "trex \<Rightarrow> collisionBox list" where
  "trex_collision_boxes tRex =
     (if ducking tRex then TREX_COLLISION_BOXES_DUCKING else TREX_COLLISION_BOXES_RUNNING)"

definition check_trex :: "obstacle \<Rightarrow> trex \<Rightarrow> trex" where
  "check_trex obstacle tRex =
     (if \<not> alive tRex then tRex
      else if ENABLE_NOCLIP then tRex
      else if outer_bounds_overlap tRex obstacle
      then if snd (check_trex_boxes tRex obstacle (trex_collision_boxes tRex))
           then tRex\<lparr>alive := False\<rparr>
           else tRex
      else tRex)"

definition checkCollisions :: "gameData \<Rightarrow> gameData" where
  "checkCollisions g =
     (case obstacles g of
        [] \<Rightarrow> g
      | obstacle # rest \<Rightarrow>
          if ob_remove obstacle then g
          else g\<lparr>tRexes := map (check_trex obstacle) (tRexes g)\<rparr>)"

subsection \<open>The tick\<close>

text \<open>
  What a tick takes from outside the game state: the time since the last tick, the time
  stamp, and the obstacle list that \<^verbatim>\<open>updateObstacles\<close> leaves (it moves, spawns and
  drops obstacles, and writes nothing else).
\<close>

record tick_env =
  env_deltaTime :: number
  env_now :: number
  env_obstacles :: "obstacle list"

text \<open>
  \<^verbatim>\<open>update\<close> up to the count of the runners alive, in three phases: clock and speed
  (\<open>advance_clock\<close>); the nearest obstacle and the control loop, run when there are
  runners and as many networks (\<open>control_phase\<close>); jump physics, obstacles, and
  collisions once the clear time has passed (\<open>world_phase\<close>). The generation rollover
  that follows when no runner is alive is \<open>handleGenerationEnd\<close>.
\<close>

definition advance_clock :: "gameData \<Rightarrow> number \<Rightarrow> gameData" where
  "advance_clock g deltaTime =
     (let g1 = g\<lparr>runningTime := runningTime g + deltaTime,
                   distanceRan := distanceRan g +
                                  currentSpeed g * deltaTime / game_msPerFrame g\<rparr>
      in if currentSpeed g1 < GAME_CONFIG_MAX_SPEED
         then g1\<lparr>currentSpeed := currentSpeed g1 + GAME_CONFIG_ACCELERATION\<rparr>
         else g1)"

definition control_phase :: "gameData \<Rightarrow> number \<Rightarrow> error + gameData" where
  "control_phase g deltaTime =
     (let (globalClosest, globalMinDist) = global_closest (obstacles g)
      in if tRexes g \<noteq> [] \<and> length (networks g) = length (tRexes g)
         then control_loop g globalClosest globalMinDist deltaTime
         else Inr g)"

definition world_phase :: "gameData \<Rightarrow> tick_env \<Rightarrow> gameData" where
  "world_phase g env =
     (let g1 = updateAllTRexes g (env_deltaTime env) (env_now env);
          g2 = g1\<lparr>obstacles := env_obstacles env\<rparr>
      in if GAME_CONFIG_CLEAR_TIME < runningTime g2 then checkCollisions g2 else g2)"

definition update :: "gameData \<Rightarrow> tick_env \<Rightarrow> error + gameData" where
  "update g env =
     (if \<not> playing g then Inr g
      else and_then (control_phase (advance_clock g (env_deltaTime env)) (env_deltaTime env))
             (\<lambda>g'. Inr (world_phase g' env)))"

definition aliveCount :: "gameData \<Rightarrow> nat" where
  "aliveCount g = length (filter alive (tRexes g))"

subsection \<open>Auxiliary notions for the tick\<close>

text \<open>A run of ticks within one generation: \<^verbatim>\<open>update\<close> once per frame.\<close>

definition run_ticks :: "gameData \<Rightarrow> tick_env list \<Rightarrow> error + gameData" where
  "run_ticks g envs = fold (\<lambda>env acc. and_then acc (\<lambda>g'. update g' env)) envs (Inr g)"

text \<open>
  \<open>frozen i f g\<close>: runner \<open>i\<close> is dead and its fitness entry is \<open>f\<close>. \<open>pop_ok g\<close>: there
  is a population, with one fitness entry per network, of well-formed networks with twelve
  inputs. \<open>record_kept g g'\<close>: the best-ever record, the generation counter and the
  population size of \<open>g'\<close> are those of \<open>g\<close>.
\<close>

definition frozen :: "nat \<Rightarrow> number \<Rightarrow> gameData \<Rightarrow> bool" where
  "frozen i f g = (i < length (tRexes g) \<and> \<not> alive (tRexes g ! i) \<and> js_nth (fitness g) i = f)"

definition pop_ok :: "gameData \<Rightarrow> bool" where
  "pop_ok g =
     (networks g \<noteq> [] \<and> length (fitness g) = length (networks g) \<and>
      list_all (\<lambda>n. wf_network n \<and> inputSize (architecture n) = 12) (networks g))"

definition record_kept :: "gameData \<Rightarrow> gameData \<Rightarrow> bool" where
  "record_kept g g' =
     (bestFitness g' = bestFitness g \<and> bestWeights g' = bestWeights g \<and>
      generation g' = generation g \<and> length (networks g') = length (networks g) \<and>
      length (tRexes g') = length (tRexes g))"


text \<open>A pair of sub-hitboxes overlaps once both are moved to their owners' positions.\<close>

definition pair_overlaps :: "trex \<Rightarrow> obstacle \<Rightarrow> collisionBox \<times> collisionBox \<Rightarrow> bool" where
  "pair_overlaps tRex obstacle p =
     boxes_overlap (adjust_box (xPos tRex) (yPos tRex) (fst p))
       (adjust_box (ob_xPos obstacle) (ob_yPos obstacle) (snd p))"


subsection \<open>Example states\<close>

text \<open>
  Concrete states used to instantiate the theorems: a runner on the ground at the start
  position (the canvas is 150 high, so the ground line is at 93), a small cactus at a
  given position, a network with twelve inputs and all weights zero, and a running game
  of two runners, the first of them dead.
\<close>

definition example_trex :: trex where
  "example_trex =
     \<lparr>trex_id = 2, xPos = Fin 50, yPos = Fin 93, groundYPos = Fin 93,
      minJumpHeight = Fin 63, jumping = False, ducking = False, jumpVelocity = Fin 0,
      reachedMinHeight = False, speedDrop = False, currentFrame = 0, timer = Fin 0,
      msPerFrame = Fin (1000 / 12), currentAnimFrames = [Fin 88, Fin 132],
      status = RUNNING, alive = True, lastLandTime = Fin 0, duckUntilX = None\<rparr>"

definition dead_trex :: trex where
  "dead_trex = example_trex\<lparr>trex_id := 1, alive := False\<rparr>"

definition example_cactus :: "real \<Rightarrow> obstacle" where
  "example_cactus x =
     \<lparr>ob_xPos = Fin x, ob_yPos = Fin 105, ob_width = Fin 17, ob_height = Fin 35,
      ob_type = CACTUS_SMALL, ob_remove = False,
      ob_collisionBoxes = [mk_box 0 7 5 27, mk_box 4 0 6 34, mk_box 10 4 7 14],
      ob_rewardedBy = {}\<rparr>"

definition zero_network :: neuralNetwork where
  "zero_network =
     \<lparr>architecture = \<lparr>inputSize = 12, hidden1Size = 1, hidden2Size = 1, outputSize = 3\<rparr>,
      weightsIH1 = replicate 12 [Fin 0],
      weightsH1H2 = [[Fin 0]],
      weightsH2O = [[Fin 0, Fin 0, Fin 0]],
      biasH1 = [Fin 0], biasH2 = [Fin 0], biasO = [Fin 0, Fin 0, Fin 0],
      lastInputs = [], lastHidden1 = [], lastHidden2 = [], lastOutputs = []\<rparr>"

definition example_game :: gameData where
  "example_game =
     \<lparr>runningTime = Fin 4000, currentSpeed = Fin 6, distanceRan = Fin 0,
      game_msPerFrame = Fin (1000 / 60), playing = True, crashed = False, activated = True,
      tRexes = [dead_trex, example_trex],
      networks = [zero_network, zero_network],
      fitness = [Fin 7, Fin 3],
      generation = 0, bestFitness = Fin 0, bestWeights = None,
      obstacles = [example_cactus 240],
      prevDist = Fin 200\<rparr>"

definition example_env :: tick_env where
  "example_env =
     \<lparr>env_deltaTime = Fin 16, env_now = Fin 5000, env_obstacles = [example_cactus 234]\<rparr>"

text \<open>The same game with the cactus ten pixels in front of the runners.\<close>

definition collision_game :: gameData where
  "collision_game = example_game\<lparr>obstacles := [example_cactus 60]\<rparr>"


text \<open>
  The example game with no obstacle on the track, and with two live runners at the same
  position.
\<close>

definition empty_track_game :: gameData where
  "empty_track_game = example_game\<lparr>obstacles := []\<rparr>"

definition two_runner_game :: gameData where
  "two_runner_game = example_game\<lparr>tRexes := [example_trex\<lparr>trex_id := 1\<rparr>, example_trex]\<rparr>"


text \<open>
  A network of the default architecture whose weights and biases all have one value, and
  a population of four such networks, the third of which has the best fitness;
  \<open>four_game_next\<close> is the state after its rollover when every draw is \<open>1/2\<close>.
\<close>

definition uniform_network :: "real \<Rightarrow> neuralNetwork" where
  "uniform_network c =
     \<lparr>architecture = DEFAULT_ARCHITECTURE,
      weightsIH1 = replicate 12 (replicate 8 (Fin c)),
      weightsH1H2 = replicate 8 (replicate 6 (Fin c)),
      weightsH2O = replicate 6 (replicate 3 (Fin c)),
      biasH1 = replicate 8 (Fin c), biasH2 = replicate 6 (Fin c), biasO = replicate 3 (Fin c),
      lastInputs = [], lastHidden1 = [], lastHidden2 = [], lastOutputs = []\<rparr>"

definition four_game :: gameData where
  "four_game =
     example_game
       \<lparr>networks := [uniform_network 0, uniform_network 1, uniform_network 2, uniform_network 3],
        fitness := [Fin 0, Fin 0, Fin 5, Fin 0]\<rparr>"

definition four_game_next :: gameData where
  "four_game_next =
     fst (the (handleGenerationEnd four_game [0, 1, 2, 3] 3 (constant_draws (1 / 2)) 0))"

subsection \<open>Runs of the game\<close>

text \<open>
  What happens to the game state over time: a tick, a generation rollover (with the
  shuffle outcome, the draws the shuffle took and the position in the random source at
  which it starts), or a start of the run; \<open>run\<close> applies a list of such events, and is
  \<open>None\<close> if one of them does not return. \<open>good_event n\<close> says of a rollover that its
  shuffled array is one for \<open>n\<close> networks. \<open>record_grows g g'\<close>: the best-ever record of
  \<open>g'\<close> is that of \<open>g\<close>, or its fitness is strictly greater.
\<close>

datatype event = Tick tick_env | GenerationEnd "nat list" nat nat | Start

fun step :: "rng \<Rightarrow> gameData \<Rightarrow> event \<Rightarrow> gameData option" where
  "step r g (Tick env) = ok (update g env)"
| "step r g (GenerationEnd shuffledIndices shuffleDraws p) =
     map_option fst (handleGenerationEnd g shuffledIndices shuffleDraws r p)"
| "step r g Start = Some (handleStart g)"

fun run :: "rng \<Rightarrow> gameData \<Rightarrow> event list \<Rightarrow> gameData option" where
  "run r g [] = Some g"
| "run r g (ev # evs) = (case step r g ev of None \<Rightarrow> None | Some g' \<Rightarrow> run r g' evs)"

fun good_event :: "nat \<Rightarrow> event \<Rightarrow> bool" where
  "good_event n (GenerationEnd shuffledIndices shuffleDraws p) = valid_shuffle n shuffledIndices"
| "good_event n ev = True"

definition record_grows :: "gameData \<Rightarrow> gameData \<Rightarrow> bool" where
  "record_grows g g' =
     ((bestFitness g' = bestFitness g \<and> bestWeights g' = bestWeights g) \<or>
      bestFitness g < bestFitness g')"


section \<open>Properties of the network\<close>

lemmas number_ops =
  plus_number_def uminus_number_def minus_number_def times_number_def
  divide_number_def inverse_number_def less_number_def less_eq_number_def

lemma and_then_Inr [simp]: "and_then (Inr x) f = f x"
  by (simp add: and_then_def)

lemma and_then_Inl [simp]: "and_then (Inl e) f = Inl e"
  by (simp add: and_then_def)

lemma length_slice [simp]: "length (slice w idx len) = len"
  by (simp add: slice_def)

lemma length_chop [simp]: "length (chop w idx rows cols) = rows"
  by (simp add: chop_def)

lemma slice_Suc: "slice w idx (Suc k) = slice w idx k @ [js_nth w (idx + k)]"
  by (simp add: slice_def)

lemma slice_add: "slice w idx (k + l) = slice w idx k @ slice w (idx + k) l"
  by (induction l) (simp_all add: slice_def add.assoc)

lemma slice_all: "slice w 0 (length w) = w"
  by (rule nth_equalityI) (simp_all add: slice_def js_nth_def)

lemma slice_middle: "slice (pre @ xs @ post) (length pre) (length xs) = xs"
  by (rule nth_equalityI) (simp_all add: slice_def js_nth_def nth_append)

lemma chop_Suc: "chop w idx (Suc k) cols = chop w idx k cols @ [slice w (idx + k * cols) cols]"
  by (simp add: chop_def)

lemma concat_chop: "concat (chop w idx rows cols) = slice w idx (rows * cols)"
proof (induction rows)
  case 0
  show ?case by (simp add: chop_def slice_def)
next
  case (Suc k)
  have "slice w idx (k * cols + cols) = slice w idx (k * cols) @ slice w (idx + k * cols) cols"
    by (rule slice_add)
  with Suc show ?case by (simp add: chop_Suc add.commute)
qed

lemma wf_matrix_chop [simp]: "wf_matrix (chop w idx rows cols) rows cols"
  by (simp add: wf_matrix_def chop_def list_all_iff)

lemma wf_matrix_row: "wf_matrix m rows cols \<Longrightarrow> i < rows \<Longrightarrow> length (m ! i) = cols"
  by (simp add: wf_matrix_def list_all_length)

lemma length_concat_wf: "wf_matrix m rows cols \<Longrightarrow> length (concat m) = rows * cols"
proof (induction m arbitrary: rows)
  case Nil
  then show ?case by (simp add: wf_matrix_def)
next
  case (Cons r m)
  then have "wf_matrix m (length m) cols" "length r = cols" "rows = Suc (length m)"
    by (auto simp: wf_matrix_def)
  with Cons.IH [of "length m"] show ?case by simp
qed

lemma wf_matrix_concat_eq:
  assumes "wf_matrix m rows cols" "wf_matrix m' rows cols" "concat m = concat m'"
  shows "m = m'"
proof -
  have len: "length m = length m'" using assms by (simp add: wf_matrix_def)
  have "\<forall>(x, y) \<in> set (zip m m'). length x = length y"
    using assms(1,2) by (auto simp: wf_matrix_def list_all_length in_set_zip)
  from concat_eq_concat_iff [OF this len] assms(3) show ?thesis by simp
qed

subsection \<open>getWeights on a well-formed network\<close>

lemma push_row:
  assumes "i < length m" "k \<le> length (m ! i)"
  shows "fold (\<lambda>j acc. and_then acc (\<lambda>ws. and_then (cell m i j) (\<lambda>c. Inr (ws @ [c]))))
           [0..<k] (Inr ws) = Inr (ws @ take k (m ! i))"
  using assms(2)
proof (induction k)
  case 0
  show ?case by simp
next
  case (Suc k)
  then show ?case using assms(1)
    by (simp add: cell_def js_nth_def take_Suc_conv_app_nth)
qed

lemma push_rows:
  assumes "wf_matrix m rows cols" "k \<le> rows"
  shows "fold (\<lambda>i acc. fold (\<lambda>j acc. and_then acc (\<lambda>ws. and_then (cell m i j)
                             (\<lambda>c. Inr (ws @ [c])))) [0..<cols] acc)
           [0..<k] (Inr ws) = Inr (ws @ concat (take k m))"
  using assms(2)
proof (induction k)
  case 0
  show ?case by simp
next
  case (Suc k)
  then have k: "k < length m" "length (m ! k) = cols"
    using assms(1) wf_matrix_row [OF assms(1), of k] by (simp_all add: wf_matrix_def)
  from Suc have IH: "fold (\<lambda>i acc. fold (\<lambda>j acc. and_then acc (\<lambda>ws. and_then (cell m i j)
                             (\<lambda>c. Inr (ws @ [c])))) [0..<cols] acc)
           [0..<k] (Inr ws) = Inr (ws @ concat (take k m))" by simp
  show ?case
    using k push_row [of k m cols "ws @ concat (take k m)"]
    by (simp add: IH take_Suc_conv_app_nth)
qed

lemma push_matrix_wf:
  "wf_matrix m rows cols \<Longrightarrow> push_matrix m rows cols ws = Inr (ws @ concat m)"
  using push_rows [of m rows cols rows ws] by (simp add: push_matrix_def wf_matrix_def)

lemma getWeights_wf: "wf_network n \<Longrightarrow> getWeights n = Inr (flatten n)"
  by (simp add: getWeights_def wf_network_def Let_def push_matrix_wf flatten_def)

lemma length_flatten:
  assumes "wf_network n"
  shows "length (flatten n) = getTotalWeights n"
proof -
  let ?a = "architecture n"
  have "length (concat (weightsIH1 n)) = inputSize ?a * hidden1Size ?a"
    "length (concat (weightsH1H2 n)) = hidden1Size ?a * hidden2Size ?a"
    "length (concat (weightsH2O n)) = hidden2Size ?a * outputSize ?a"
    using assms by (simp_all only: wf_network_def Let_def length_concat_wf)
  moreover have "length (biasH1 n) = hidden1Size ?a" "length (biasH2 n) = hidden2Size ?a"
    "length (biasO n) = outputSize ?a"
    using assms by (simp_all add: wf_network_def Let_def)
  ultimately show ?thesis
    by (simp only: flatten_def getTotalWeights_def Let_def length_append)
qed


subsection \<open>setWeights on a well-formed network\<close>

lemma js_update_next:
  assumes "length xs = k" "k < length row"
  shows "js_update (xs @ drop k row) k v = xs @ v # drop (Suc k) row"
proof -
  have "drop k row = row ! k # drop (Suc k) row"
    using assms(2) by (simp add: Cons_nth_drop_Suc)
  then show ?thesis using assms by (simp add: js_update_def list_update_append)
qed

lemma store_row:
  assumes "i < length m" "k \<le> length (m ! i)"
  shows "fold (\<lambda>j acc. and_then acc (\<lambda>(m', idx).
                 and_then (set_cell m' i j (js_nth w idx)) (\<lambda>m''. Inr (m'', Suc idx))))
           [0..<k] (Inr (m, idx)) = Inr (m[i := slice w idx k @ drop k (m ! i)], idx + k)"
  using assms(2)
proof (induction k)
  case 0
  show ?case by (simp add: slice_def)
next
  case (Suc k)
  then have k: "k < length (m ! i)" by simp
  have "js_update (slice w idx k @ drop k (m ! i)) k (js_nth w (idx + k)) =
        slice w idx (Suc k) @ drop (Suc k) (m ! i)"
    using js_update_next [of "slice w idx k" k "m ! i"] k by (simp add: slice_Suc)
  then show ?case using Suc assms(1) by (simp add: set_cell_def)
qed

lemma store_rows:
  assumes "wf_matrix m rows cols" "k \<le> rows"
  shows "fold (\<lambda>i acc. fold (\<lambda>j acc. and_then acc (\<lambda>(m', idx).
                             and_then (set_cell m' i j (js_nth w idx))
                               (\<lambda>m''. Inr (m'', Suc idx))))
                      [0..<cols] acc)
           [0..<k] (Inr (m, idx)) = Inr (chop w idx k cols @ drop k m, idx + k * cols)"
  using assms(2)
proof (induction k)
  case 0
  show ?case by (simp add: chop_def)
next
  case (Suc k)
  let ?mk = "chop w idx k cols @ drop k m"
  have k: "k < length m" "length (m ! k) = cols"
    using Suc.prems assms(1) wf_matrix_row [OF assms(1), of k] by (simp_all add: wf_matrix_def)
  have row: "?mk ! k = m ! k" using k by (simp add: nth_append)
  have len: "k < length ?mk" using k by simp
  have upd: "?mk[k := slice w (idx + k * cols) cols @ drop cols (?mk ! k)] =
             chop w idx (Suc k) cols @ drop (Suc k) m"
  proof -
    have "drop cols (?mk ! k) = []" using k row by simp
    moreover have "drop k m = m ! k # drop (Suc k) m" using k by (simp add: Cons_nth_drop_Suc)
    then have "?mk[k := slice w (idx + k * cols) cols] =
               chop w idx (Suc k) cols @ drop (Suc k) m"
      by (simp add: list_update_append chop_Suc)
    ultimately show ?thesis by simp
  qed
  have step: "fold (\<lambda>j acc. and_then acc (\<lambda>(m', idx).
                 and_then (set_cell m' k j (js_nth w idx)) (\<lambda>m''. Inr (m'', Suc idx))))
           [0..<cols] (Inr (?mk, idx + k * cols)) =
           Inr (chop w idx (Suc k) cols @ drop (Suc k) m, idx + k * cols + cols)"
  proof -
    have "cols \<le> length (?mk ! k)" using k row by simp
    from store_row [OF len this, of w "idx + k * cols"] show ?thesis
      by (simp only: upd)
  qed
  from Suc have IH: "fold (\<lambda>i acc. fold (\<lambda>j acc. and_then acc (\<lambda>(m', idx).
                             and_then (set_cell m' i j (js_nth w idx))
                               (\<lambda>m''. Inr (m'', Suc idx))))
                      [0..<cols] acc)
           [0..<k] (Inr (m, idx)) = Inr (?mk, idx + k * cols)" by simp
  show ?case
    by (simp add: IH step add.commute add.left_commute del: fold_simps)
qed

lemma store_matrix_wf:
  "wf_matrix m rows cols \<Longrightarrow>
   store_matrix m rows cols w idx = Inr (chop w idx rows cols, idx + rows * cols)"
  using store_rows [of m rows cols rows w idx] by (simp add: store_matrix_def wf_matrix_def)

lemma store_vector_steps:
  "k \<le> length b \<Longrightarrow>
   fold (\<lambda>i (b', idx). (js_update b' i (js_nth w idx), Suc idx)) [0..<k] (b, idx) =
     (slice w idx k @ drop k b, idx + k)"
proof (induction k)
  case 0
  show ?case by (simp add: slice_def)
next
  case (Suc k)
  then have "js_update (slice w idx k @ drop k b) k (js_nth w (idx + k)) =
        slice w idx (Suc k) @ drop (Suc k) b"
    using js_update_next [of "slice w idx k" k b] by (simp add: slice_Suc)
  with Suc show ?case by simp
qed

lemma store_vector_wf:
  "length b = len \<Longrightarrow> store_vector b len w idx = (slice w idx len, idx + len)"
  using store_vector_steps [of len b w idx] by (simp add: store_vector_def)

lemma setWeights_wf: "wf_network n \<Longrightarrow> setWeights n w = Inr (unflatten n w)"
  by (simp add: setWeights_def wf_network_def Let_def store_matrix_wf store_vector_wf
      unflatten_def)

lemma wf_unflatten: "wf_network (unflatten n w)"
  by (simp add: wf_network_def unflatten_def Let_def)

lemma architecture_unflatten [simp]: "architecture (unflatten n w) = architecture n"
  by (simp add: unflatten_def Let_def)

lemma slices6:
  "slice w 0 a @ slice w a b @ slice w (a + b) c @ slice w (a + b + c) d @
   slice w (a + b + c + d) e @ slice w (a + b + c + d + e) f =
   slice w 0 (a + b + c + d + e + f)"
  by (simp add: slice_add)

lemma flatten_unflatten:
  assumes "length w = getTotalWeights n"
  shows "flatten (unflatten n w) = w"
proof -
  let ?a = "architecture n"
  let ?i1 = "inputSize ?a * hidden1Size ?a"
  let ?i2 = "?i1 + hidden1Size ?a * hidden2Size ?a"
  let ?i3 = "?i2 + hidden2Size ?a * outputSize ?a"
  let ?i4 = "?i3 + hidden1Size ?a"
  let ?i5 = "?i4 + hidden2Size ?a"
  have "flatten (unflatten n w) =
        slice w 0 ?i1 @ slice w ?i1 (hidden1Size ?a * hidden2Size ?a) @
        slice w ?i2 (hidden2Size ?a * outputSize ?a) @ slice w ?i3 (hidden1Size ?a) @
        slice w ?i4 (hidden2Size ?a) @ slice w ?i5 (outputSize ?a)"
    by (simp add: flatten_def unflatten_def Let_def concat_chop)
  also have "\<dots> = slice w 0 (?i5 + outputSize ?a)"
    by (rule slices6)
  also have "?i5 + outputSize ?a = length w"
    using assms by (simp add: getTotalWeights_def Let_def add.assoc)
  finally show ?thesis by (simp add: slice_all)
qed

lemma slice_of_append:
  "w = pre @ xs @ post \<Longrightarrow> length pre = idx \<Longrightarrow> length xs = len \<Longrightarrow> slice w idx len = xs"
  using slice_middle [of pre xs post] by simp

lemma chop_of_append:
  assumes "wf_matrix m rows cols" "w = pre @ concat m @ post" "length pre = idx"
  shows "chop w idx rows cols = m"
proof -
  have "concat (chop w idx rows cols) = concat m"
    using slice_of_append [OF assms(2,3) length_concat_wf [OF assms(1)]]
    by (simp only: concat_chop)
  with wf_matrix_concat_eq [OF wf_matrix_chop assms(1)] show ?thesis by blast
qed

lemma unflatten_flatten:
  assumes "wf_network n"
  shows "unflatten n (flatten n) = n"
proof -
  let ?a = "architecture n"
  let ?w = "flatten n"
  let ?c1 = "concat (weightsIH1 n)"
  let ?c2 = "concat (weightsH1H2 n)"
  let ?c3 = "concat (weightsH2O n)"
  have wf: "wf_matrix (weightsIH1 n) (inputSize ?a) (hidden1Size ?a)"
    "wf_matrix (weightsH1H2 n) (hidden1Size ?a) (hidden2Size ?a)"
    "wf_matrix (weightsH2O n) (hidden2Size ?a) (outputSize ?a)"
    and lb: "length (biasH1 n) = hidden1Size ?a" "length (biasH2 n) = hidden2Size ?a"
    "length (biasO n) = outputSize ?a"
    using assms by (simp_all add: wf_network_def Let_def)
  have l1: "length ?c1 = inputSize ?a * hidden1Size ?a"
    and l2: "length ?c2 = hidden1Size ?a * hidden2Size ?a"
    and l3: "length ?c3 = hidden2Size ?a * outputSize ?a"
    using wf by (simp_all only: length_concat_wf)
  have m1: "chop ?w 0 (inputSize ?a) (hidden1Size ?a) = weightsIH1 n"
    by (rule chop_of_append [OF wf(1), of _ "[]"]) (simp_all add: flatten_def)
  have m2: "chop ?w (inputSize ?a * hidden1Size ?a) (hidden1Size ?a) (hidden2Size ?a) =
            weightsH1H2 n"
    by (rule chop_of_append [OF wf(2), of _ ?c1]) (simp_all only: flatten_def l1)
  have m3: "chop ?w (inputSize ?a * hidden1Size ?a + hidden1Size ?a * hidden2Size ?a)
              (hidden2Size ?a) (outputSize ?a) = weightsH2O n"
    by (rule chop_of_append [OF wf(3), of _ "?c1 @ ?c2" "biasH1 n @ biasH2 n @ biasO n"])
      (simp_all only: flatten_def l1 l2 length_append append_assoc)
  have b1: "slice ?w (inputSize ?a * hidden1Size ?a + hidden1Size ?a * hidden2Size ?a +
              hidden2Size ?a * outputSize ?a) (hidden1Size ?a) = biasH1 n"
    by (rule slice_of_append [of _ "?c1 @ ?c2 @ ?c3" _ "biasH2 n @ biasO n"])
      (simp_all only: flatten_def l1 l2 l3 lb length_append append_assoc add.assoc)
  have b2: "slice ?w (inputSize ?a * hidden1Size ?a + hidden1Size ?a * hidden2Size ?a +
              hidden2Size ?a * outputSize ?a + hidden1Size ?a) (hidden2Size ?a) = biasH2 n"
    by (rule slice_of_append [of _ "?c1 @ ?c2 @ ?c3 @ biasH1 n" _ "biasO n"])
      (simp_all only: flatten_def l1 l2 l3 lb length_append append_assoc add.assoc)
  have b3: "slice ?w (inputSize ?a * hidden1Size ?a + hidden1Size ?a * hidden2Size ?a +
              hidden2Size ?a * outputSize ?a + hidden1Size ?a + hidden2Size ?a)
              (outputSize ?a) = biasO n"
    by (rule slice_of_append [of _ "?c1 @ ?c2 @ ?c3 @ biasH1 n @ biasH2 n" _ "[]"])
      (simp_all only: flatten_def l1 l2 l3 lb length_append append_assoc add.assoc
         append_Nil2)
  show ?thesis
    by (simp only: unflatten_def Let_def m1 m2 m3 b1 b2 b3) simp
qed

subsection \<open>predict on a well-formed network\<close>

lemma weighted_sum_steps:
  "k \<le> length w \<Longrightarrow>
   \<exists>s. fold (\<lambda>i acc. and_then acc (\<lambda>sum. and_then (cell w i j)
               (\<lambda>c. Inr (sum + js_nth inputs i * c)))) [0..<k] (Inr b) = Inr s"
  by (induction k) (auto simp: cell_def)

lemma weighted_sum_wf:
  "length w = inSize \<Longrightarrow> \<exists>s. weighted_sum inputs w bias inSize j = Inr s"
  using weighted_sum_steps [of inSize w j inputs "js_nth bias j"]
  by (simp add: weighted_sum_def)

lemma layer_steps:
  assumes "length w = inSize"
  shows "\<exists>out. fold (\<lambda>j acc. and_then acc (\<lambda>out.
                   and_then (weighted_sum inputs w bias inSize j)
                     (\<lambda>sum. Inr (js_update out j (sigmoid sum))))) [0..<k] (Inr []) = Inr out
               \<and> length out = k"
proof (induction k)
  case 0
  show ?case by simp
next
  case (Suc k)
  then obtain out where out: "fold (\<lambda>j acc. and_then acc (\<lambda>out.
                   and_then (weighted_sum inputs w bias inSize j)
                     (\<lambda>sum. Inr (js_update out j (sigmoid sum))))) [0..<k] (Inr []) = Inr out"
    "length out = k" by blast
  obtain s where s: "weighted_sum inputs w bias inSize k = Inr s"
    using weighted_sum_wf [OF assms] by blast
  show ?case using out s by (simp add: js_update_def)
qed

lemma layer_wf:
  "length w = inSize \<Longrightarrow>
   \<exists>out. layer inputs w bias inSize outSize = Inr out \<and> length out = outSize"
  using layer_steps [of w inSize inputs bias outSize] by (simp add: layer_def)

lemma predict_wf:
  assumes "wf_network n" "length xs = inputSize (architecture n)"
  shows "\<exists>h1 h2 out. predict n xs =
           Inr (out, n\<lparr>lastInputs := xs, lastHidden1 := h1, lastHidden2 := h2,
                        lastOutputs := out\<rparr>)
         \<and> length out = outputSize (architecture n)"
proof -
  let ?a = "architecture n"
  have len: "length (weightsIH1 n) = inputSize ?a" "length (weightsH1H2 n) = hidden1Size ?a"
    "length (weightsH2O n) = hidden2Size ?a"
    using assms(1) by (simp_all add: wf_network_def wf_matrix_def Let_def)
  obtain h1 where h1: "layer xs (weightsIH1 n) (biasH1 n) (inputSize ?a) (hidden1Size ?a) = Inr h1"
    using layer_wf [OF len(1)] by blast
  obtain h2 where h2: "layer h1 (weightsH1H2 n) (biasH2 n) (hidden1Size ?a) (hidden2Size ?a) = Inr h2"
    using layer_wf [OF len(2)] by blast
  obtain out where out: "layer h2 (weightsH2O n) (biasO n) (hidden2Size ?a) (outputSize ?a) = Inr out"
    "length out = outputSize ?a"
    using layer_wf [OF len(3)] by blast
  have "predict n xs = Inr (out, n\<lparr>lastInputs := xs, lastHidden1 := h1, lastHidden2 := h2,
                        lastOutputs := out\<rparr>)"
    using assms(2) h1 h2 out by (simp add: predict_def Let_def)
  with out(2) show ?thesis by blast
qed

lemma predict_mismatch:
  "length xs \<noteq> inputSize (architecture n) \<Longrightarrow>
   predict n xs = Inl (ShapeMismatch (inputSize (architecture n)) (length xs))"
  by (simp add: predict_def Let_def)

lemma getWeights_caches:
  "getWeights (n\<lparr>lastInputs := a, lastHidden1 := b, lastHidden2 := c, lastOutputs := d\<rparr>) =
   getWeights n"
  by (simp add: getWeights_def)


lemma wf_example_network: "wf_network example_network"
  by (simp add: wf_network_def wf_matrix_def example_network_def)

lemma example_network_sizes:
  "inputSize (architecture example_network) = 2"
  "outputSize (architecture example_network) = 1"
  "getTotalWeights example_network = 11"
  by (simp_all add: example_network_def getTotalWeights_def)

lemma flatten_example_network:
  "flatten example_network =
     [Fin 1, Fin 2, Fin 3, Fin 4, Fin 5, Fin 6, Fin 7, Fin 8, Fin 9, Fin 10, Fin 11]"
  by (simp add: example_network_def flatten_def)

lemma wf_new_NeuralNetwork: "wf_network (fst (new_NeuralNetwork a r p))"
  by (simp add: new_NeuralNetwork_def Let_def wf_network_def wf_matrix_def random_matrix_def
      random_vector_def list_all_iff)

subsection \<open>Claims about the network\<close>

text \<open>
  Claim C1. For every network (of the shape the constructor builds) \<open>getWeights\<close>
  returns a vector \<open>w\<close>, and \<open>setWeights\<close> with \<open>w\<close> gives back the very same network,
  so \<open>predict\<close> answers every input as before. Conversely, storing any vector \<open>v\<close> of the
  total length with \<open>setWeights\<close> and reading it back with \<open>getWeights\<close> yields \<open>v\<close>:
  the flattening order input-to-hidden1, hidden1-to-hidden2, hidden2-to-output, then the
  three bias vectors is the order in which \<open>setWeights\<close> consumes the vector.
\<close>

theorem weights_roundtrip:
  assumes "wf_network n" and "length v = getTotalWeights n"
  shows "(\<exists>w. getWeights n = Inr w \<and> setWeights n w = Inr n \<and>
              (\<forall>n' xs. setWeights n w = Inr n' \<longrightarrow> predict n' xs = predict n xs)) \<and>
         (\<exists>m. setWeights n v = Inr m \<and> getWeights m = Inr v)"
proof
  have "setWeights n (flatten n) = Inr n"
    using assms(1) by (simp add: setWeights_wf unflatten_flatten)
  then show "\<exists>w. getWeights n = Inr w \<and> setWeights n w = Inr n \<and>
              (\<forall>n' xs. setWeights n w = Inr n' \<longrightarrow> predict n' xs = predict n xs)"
    using assms(1) by (simp add: getWeights_wf)
next
  have "getWeights (unflatten n v) = Inr v"
    using assms(2) by (simp add: getWeights_wf wf_unflatten flatten_unflatten)
  then show "\<exists>m. setWeights n v = Inr m \<and> getWeights m = Inr v"
    using assms(1) by (simp add: setWeights_wf)
qed

text \<open>The theorem at \<open>example_network\<close> and its flat vector of eleven entries.\<close>

theorem weights_roundtrip_witness:
  "wf_network example_network \<and>
   length [Fin 1, Fin 2, Fin 3, Fin 4, Fin 5, Fin 6, Fin 7, Fin 8, Fin 9, Fin 10, Fin 11] =
     getTotalWeights example_network \<and>
   getWeights example_network =
     Inr [Fin 1, Fin 2, Fin 3, Fin 4, Fin 5, Fin 6, Fin 7, Fin 8, Fin 9, Fin 10, Fin 11] \<and>
   setWeights example_network
     [Fin 1, Fin 2, Fin 3, Fin 4, Fin 5, Fin 6, Fin 7, Fin 8, Fin 9, Fin 10, Fin 11] =
     Inr example_network"
  using weights_roundtrip [OF wf_example_network,
      of "[Fin 1, Fin 2, Fin 3, Fin 4, Fin 5, Fin 6, Fin 7, Fin 8, Fin 9, Fin 10, Fin 11]"]
  by (simp add: example_network_sizes wf_example_network
      getWeights_wf [OF wf_example_network] flatten_example_network)

text \<open>
  Claim C9. On a network of the constructor's shape, \<open>predict\<close> fails exactly when the
  input length differs from \<open>inputSize\<close>, and then with the shape error carrying the
  expected and the received length; when the length matches it returns an output vector
  of length \<open>outputSize\<close>.
\<close>

theorem predict_shape_error:
  assumes "wf_network n"
  shows "((\<exists>e. predict n xs = Inl e) \<longleftrightarrow> length xs \<noteq> inputSize (architecture n)) \<and>
         (length xs \<noteq> inputSize (architecture n) \<longrightarrow>
            predict n xs = Inl (ShapeMismatch (inputSize (architecture n)) (length xs))) \<and>
         (length xs = inputSize (architecture n) \<longrightarrow>
            (\<exists>out n'. predict n xs = Inr (out, n') \<and>
                       length out = outputSize (architecture n)))"
proof (cases "length xs = inputSize (architecture n)")
  case True
  from predict_wf [OF assms True] show ?thesis using True by auto
next
  case False
  from predict_mismatch [OF False] show ?thesis using False by simp
qed

text \<open>The theorem at \<open>example_network\<close>, once with one input and once with two.\<close>

theorem predict_shape_error_witness:
  "wf_network example_network \<and>
   predict example_network [Fin 0] = Inl (ShapeMismatch 2 1) \<and>
   (\<exists>out n'. predict example_network [Fin 0, Fin 1] = Inr (out, n') \<and> length out = 1)"
  using predict_shape_error [OF wf_example_network, of "[Fin 0]"]
    predict_shape_error [OF wf_example_network, of "[Fin 0, Fin 1]"]
  by (simp add: wf_example_network example_network_sizes)

text \<open>
  Claim C10. For an input of the right length \<open>predict\<close> returns, and the network after
  the call has the same architecture, weight matrices and bias vectors, hence the same
  \<open>getWeights\<close>; it differs from the network before the call in the four cached vectors
  only.
\<close>

theorem predict_frame:
  assumes "wf_network n" and "length xs = inputSize (architecture n)"
  shows "\<exists>out n'. predict n xs = Inr (out, n') \<and>
           getWeights n' = getWeights n \<and>
           architecture n' = architecture n \<and>
           weightsIH1 n' = weightsIH1 n \<and> weightsH1H2 n' = weightsH1H2 n \<and>
           weightsH2O n' = weightsH2O n \<and>
           biasH1 n' = biasH1 n \<and> biasH2 n' = biasH2 n \<and> biasO n' = biasO n \<and>
           n' = n\<lparr>lastInputs := xs, lastHidden1 := lastHidden1 n',
                   lastHidden2 := lastHidden2 n', lastOutputs := out\<rparr>"
proof -
  from predict_wf [OF assms] obtain h1 h2 out where
    p: "predict n xs = Inr (out, n\<lparr>lastInputs := xs, lastHidden1 := h1, lastHidden2 := h2,
                        lastOutputs := out\<rparr>)" by blast
  show ?thesis
    by (rule exI [of _ out], rule exI [of _ "n\<lparr>lastInputs := xs, lastHidden1 := h1,
          lastHidden2 := h2, lastOutputs := out\<rparr>"]) (simp add: p getWeights_caches)
qed

text \<open>The theorem at \<open>example_network\<close> with a two-element input.\<close>

theorem predict_frame_witness:
  "wf_network example_network \<and>
   (\<exists>out n'. predict example_network [Fin 0, Fin 1] = Inr (out, n') \<and>
      getWeights n' = getWeights example_network \<and>
      getWeights n' = Inr [Fin 1, Fin 2, Fin 3, Fin 4, Fin 5, Fin 6, Fin 7, Fin 8, Fin 9,
                           Fin 10, Fin 11])"
  using predict_frame [OF wf_example_network, of "[Fin 0, Fin 1]"]
  by (simp add: wf_example_network getWeights_wf [OF wf_example_network]
      flatten_example_network example_network_sizes) blast

section \<open>Properties of the genetic algorithm\<close>

subsection \<open>Crossover\<close>

lemma crossover_point_bounds:
  assumes "0 \<le> r p" "r p < 1" "0 < len"
  shows "1 \<le> crossover_point r p len \<and> crossover_point r p len \<le> max 1 (len - 1)"
proof -
  have "r p * real (len - 1) \<le> real (len - 1)"
    using assms by (simp add: mult_left_le_one_le)
  then have "\<lfloor>r p * real (len - 1)\<rfloor> \<le> int (len - 1)" by linarith
  moreover have "r p * real (len - 1) < real (len - 1)" if "2 \<le> len"
    using assms that by simp
  then have "\<lfloor>r p * real (len - 1)\<rfloor> < int (len - 1)" if "2 \<le> len"
    using that by (simp add: floor_less_iff)
  ultimately show ?thesis unfolding crossover_point_def by (cases "2 \<le> len") auto
qed

text \<open>
  Claim C2, as amended. For every pair of weight vectors and every draw in \<open>[0, 1)\<close>:
  if one parent is empty the child is empty; otherwise the cut point lies between 1 and
  \<open>max 1 (len - 1)\<close> for \<open>len\<close> the shorter length, the child is the left segment of
  \<open>a\<close> up to the cut point followed by the whole right segment of \<open>b\<close> from it, and its
  length is the length of \<open>b\<close>; so it is \<open>min (length a) (length b)\<close> whenever \<open>b\<close> is
  not the longer parent.
\<close>

theorem crossover_child:
  assumes "0 \<le> r p" "r p < 1"
  shows "let len = min (length a) (length b); child = fst (crossoverSinglePoint a b r p) in
         (len = 0 \<longrightarrow> child = []) \<and>
         (0 < len \<longrightarrow>
            1 \<le> crossover_point r p len \<and> crossover_point r p len \<le> max 1 (len - 1) \<and>
            child = take (crossover_point r p len) a @ drop (crossover_point r p len) b \<and>
            length child = length b) \<and>
         (length b \<le> length a \<longrightarrow> length child = min (length a) (length b))"
proof (cases "min (length a) (length b) = 0")
  case True
  then show ?thesis by (auto simp: crossoverSinglePoint_def Let_def)
next
  case False
  then have pos: "0 < min (length a) (length b)" by simp
  define pt where "pt = crossover_point r p (min (length a) (length b))"
  from crossover_point_bounds [of r p, OF assms pos]
  have b: "1 \<le> pt" "pt \<le> max 1 (min (length a) (length b) - 1)" by (simp_all add: pt_def)
  then have le: "pt \<le> length a" "pt \<le> length b" using pos by linarith+
  have child: "fst (crossoverSinglePoint a b r p) = take pt a @ drop pt b"
    using False by (simp add: crossoverSinglePoint_def Let_def pt_def del: min_less_iff_conj)
  have "length (take pt a @ drop pt b) = length b" using le by simp
  then show ?thesis using pos b child le by (simp add: Let_def pt_def [symmetric])
qed

text \<open>The theorem at two parents of length 3 and the draw \<open>1/2\<close>: the cut point is 2.\<close>

theorem crossover_child_witness:
  "0 \<le> constant_draws (1 / 2) 0 \<and> constant_draws (1 / 2) 0 < 1 \<and>
   crossover_point (constant_draws (1 / 2)) 0 3 = 2 \<and>
   fst (crossoverSinglePoint [Fin 1, Fin 2, Fin 3] [Fin 4, Fin 5, Fin 6]
          (constant_draws (1 / 2)) 0) = [Fin 1, Fin 2, Fin 6] \<and>
   length (fst (crossoverSinglePoint [Fin 1, Fin 2, Fin 3] [Fin 4, Fin 5, Fin 6]
          (constant_draws (1 / 2)) 0)) = 3"
  using crossover_child [of "constant_draws (1 / 2)" 0 "[Fin 1, Fin 2, Fin 3]"
      "[Fin 4, Fin 5, Fin 6]"]
  by (simp add: constant_draws_def crossover_point_def Let_def)

text \<open>
  Claim C2 as stated fails when \<open>b\<close> is the longer parent: with \<open>a\<close> of length 1, \<open>b\<close> of
  length 3 and the draw 0, the cut point is 1 and the child \<open>[a\<^sub>0, b\<^sub>1, b\<^sub>2]\<close> has length
  3, not 1.
\<close>

theorem crossover_length_counterexample:
  "fst (crossoverSinglePoint [Fin 1] [Fin 2, Fin 3, Fin 4] (constant_draws 0) 0) =
     [Fin 1, Fin 3, Fin 4] \<and>
   length (fst (crossoverSinglePoint [Fin 1] [Fin 2, Fin 3, Fin 4] (constant_draws 0) 0)) \<noteq>
     min (length [Fin 1]) (length [Fin 2, Fin 3, Fin 4])"
  by (simp add: crossoverSinglePoint_def crossover_point_def constant_draws_def)

subsection \<open>Random indices and the parent pool\<close>

lemma random_index_less:
  assumes "0 \<le> r p" "r p < 1" "0 < n"
  shows "random_index r p n < n"
proof -
  have "r p * real n < real n" using assms by simp
  then have "\<lfloor>r p * real n\<rfloor> < int n" by (simp add: floor_less_iff)
  moreover have "0 \<le> \<lfloor>r p * real n\<rfloor>" using assms by simp
  ultimately show ?thesis unfolding random_index_def by linarith
qed

lemma tournament_fold_less:
  assumes "valid_rng r" "0 < n" "b < n"
  shows "fst (fold (\<lambda>t (bestIdx, q).
             let challenger = random_index r q n in
             (if js_nth fit bestIdx < js_nth fit challenger then challenger else bestIdx,
              Suc q)) ts (b, q0)) < n"
  using assms(3)
proof (induction ts arbitrary: b q0)
  case Nil
  then show ?case by simp
next
  case (Cons t ts)
  have "random_index r q0 n < n"
    using assms(1,2) by (simp add: random_index_less valid_rng_def)
  with Cons show ?case by (simp add: Let_def)
qed

lemma tournament_less:
  "valid_rng r \<Longrightarrow> 0 < n \<Longrightarrow> fst (tournament fit n k r p) < n"
  unfolding tournament_def
  by (rule tournament_fold_less) (simp_all add: random_index_less valid_rng_def)

lemma pool_fold:
  assumes "valid_rng r" "0 < length nets"
    and "length pool = m" "\<forall>x\<in>set pool. \<exists>net\<in>set nets. x = Some net"
  shows "let res = fst (fold (\<lambda>i (pool, q).
             let (bestIdx, q') = tournament fit (length nets) k r q
             in (pool @ [nth_opt nets bestIdx], q')) is (pool, q0))
         in length res = m + length is \<and> (\<forall>x\<in>set res. \<exists>net\<in>set nets. x = Some net)"
  using assms(3,4)
proof (induction "is" arbitrary: pool q0 m)
  case Nil
  then show ?case by simp
next
  case (Cons i "is")
  obtain b q' where t: "tournament fit (length nets) k r q0 = (b, q')" by (cases "tournament fit (length nets) k r q0")
  have "b < length nets" using tournament_less [OF assms(1,2), of fit k q0] t by simp
  then have "\<forall>x\<in>set (pool @ [nth_opt nets b]). \<exists>net\<in>set nets. x = Some net"
    using Cons.prems(2) by (auto simp: nth_opt_def)
  moreover have "length (pool @ [nth_opt nets b]) = Suc m" using Cons.prems(1) by simp
  ultimately show ?case
    using Cons.IH [of "pool @ [nth_opt nets b]" "Suc m" q'] t by (simp add: Let_def)
qed

lemma buildParentsPool_ok:
  assumes "valid_rng r" "0 < length nets"
  shows "length (fst (buildParentsPool nets fit k r p)) = length nets \<and>
         (\<forall>x\<in>set (fst (buildParentsPool nets fit k r p)). \<exists>net\<in>set nets. x = Some net)"
  using pool_fold [OF assms, of "[]" 0 fit k "[0..<length nets]" p]
  by (simp add: buildParentsPool_def Let_def)

subsection \<open>Cloning\<close>

lemma new_NeuralNetwork_architecture [simp]:
  "architecture (fst (new_NeuralNetwork a r p)) = a"
  by (simp add: new_NeuralNetwork_def Let_def)

lemma ok_Inr [simp]: "ok (Inr x) = Some x"
  by (simp add: ok_def)

lemma ok_Inl [simp]: "ok (Inl e) = None"
  by (simp add: ok_def)

lemma getTotalWeights_cong:
  "architecture m = architecture n \<Longrightarrow> getTotalWeights m = getTotalWeights n"
  by (simp add: getTotalWeights_def)

lemma store_in_fresh:
  assumes "length w = getTotalWeights c0" "wf_network c0"
  shows "setWeights c0 w = Inr (unflatten c0 w) \<and> wf_network (unflatten c0 w) \<and>
         architecture (unflatten c0 w) = architecture c0 \<and> flatten (unflatten c0 w) = w"
  using assms by (simp add: setWeights_wf wf_unflatten flatten_unflatten)

lemma clone_wf:
  assumes "wf_network n"
  shows "\<exists>c p'. clone n r p = Inr (c, p') \<and> wf_network c \<and>
           architecture c = architecture n \<and> flatten c = flatten n"
proof -
  obtain c0 p' where new: "new_NeuralNetwork (architecture n) r p = (c0, p')"
    by (cases "new_NeuralNetwork (architecture n) r p")
  have c0: "wf_network c0" "architecture c0 = architecture n"
    using wf_new_NeuralNetwork [of "architecture n" r p]
      new_NeuralNetwork_architecture [of "architecture n" r p] new by simp_all
  have len: "length (flatten n) = getTotalWeights c0"
    using length_flatten [OF assms] getTotalWeights_cong [OF c0(2)] by simp
  from store_in_fresh [OF len c0(1)] c0(2)
  have "clone n r p = Inr (unflatten c0 (flatten n), p')"
    and "wf_network (unflatten c0 (flatten n))"
    and "architecture (unflatten c0 (flatten n)) = architecture n"
    and "flatten (unflatten c0 (flatten n)) = flatten n"
    using assms by (simp_all add: clone_def new getWeights_wf)
  then show ?thesis by blast
qed

subsection \<open>The rejection loop and mutation\<close>

lemma draw_nonzero_steps:
  "r (p + d) \<noteq> 0 \<Longrightarrow> \<exists>v p'. draw_nonzero r p = Some (v, p') \<and> v \<noteq> 0"
proof (induction d arbitrary: p)
  case 0
  then show ?case by (subst draw_nonzero.simps) simp
next
  case (Suc d)
  show ?case
  proof (cases "r p = 0")
    case True
    from Suc.IH [of "Suc p"] Suc.prems
    obtain v p' where "draw_nonzero r (Suc p) = Some (v, p')" "v \<noteq> 0" by auto
    then show ?thesis using True by (subst draw_nonzero.simps) simp
  next
    case False
    then show ?thesis by (subst draw_nonzero.simps) simp
  qed
qed

lemma draw_nonzero_fair:
  assumes "fair_rng r"
  shows "\<exists>v p'. draw_nonzero r p = Some (v, p') \<and> v \<noteq> 0"
proof -
  from assms obtain j where "p \<le> j" "r j \<noteq> 0" unfolding fair_rng_def by blast
  then have "r (p + (j - p)) \<noteq> 0" by simp
  then show ?thesis by (rule draw_nonzero_steps)
qed

lemma randn_fair:
  assumes "fair_rng r"
  shows "\<exists>g p'. randn r p = Some (g, p')"
proof -
  obtain u p1 where u: "draw_nonzero r p = Some (u, p1)"
    using draw_nonzero_fair [OF assms, of p] by blast
  obtain v p2 where v: "draw_nonzero r p1 = Some (v, p2)"
    using draw_nonzero_fair [OF assms, of p1] by blast
  show ?thesis by (simp add: randn_def u v)
qed

lemma mutateWeights_fair:
  assumes "fair_rng r"
  shows "\<exists>ws' p'. mutateWeights ws rate sigma r p = Some (ws', p') \<and> length ws' = length ws"
proof (induction ws arbitrary: p)
  case Nil
  show ?case by simp
next
  case (Cons w ws)
  show ?case
  proof (cases "r p < rate")
    case True
    obtain g p1 where g: "randn r (Suc p) = Some (g, p1)"
      using randn_fair [OF assms, of "Suc p"] by blast
    obtain ws' p2 where "mutateWeights ws rate sigma r p1 = Some (ws', p2)"
      "length ws' = length ws" using Cons.IH [of p1] by blast
    then show ?thesis using True g by simp
  next
    case False
    obtain ws' p2 where "mutateWeights ws rate sigma r (Suc p) = Some (ws', p2)"
      "length ws' = length ws" using Cons.IH [of "Suc p"] by blast
    then show ?thesis using False by simp
  qed
qed

subsection \<open>Offspring\<close>

lemma wf_default_fresh:
  "wf_network (fst (new_NeuralNetwork DEFAULT_ARCHITECTURE r p))"
  by (rule wf_new_NeuralNetwork)

lemma make_child_ok:
  assumes "valid_rng r" "fair_rng r" "pool \<noteq> []"
    and "\<forall>x\<in>set pool. \<exists>net. x = Some net \<and> wf_network net"
  shows "\<exists>c p'. make_child pool r p = Some (c, p') \<and> wf_network c \<and>
           architecture c = DEFAULT_ARCHITECTURE"
proof -
  have pos: "0 < length pool" using assms(3) by simp
  have i1: "random_index r p (length pool) < length pool"
    and i2: "random_index r (Suc p) (length pool) < length pool"
    using assms(1) pos by (simp_all add: random_index_less valid_rng_def)
  from i1 assms(4) obtain p1 where p1: "pool ! random_index r p (length pool) = Some p1"
    "wf_network p1" by (metis nth_mem)
  from i2 assms(4) obtain p2 where p2: "pool ! random_index r (Suc p) (length pool) = Some p2"
    "wf_network p2" by (metis nth_mem)
  obtain childW q where cw: "crossoverSinglePoint (flatten p1) (flatten p2) r (Suc (Suc p)) = (childW, q)"
    by (cases "crossoverSinglePoint (flatten p1) (flatten p2) r (Suc (Suc p))")
  obtain mutated q' where m: "mutateWeights childW (5 / 100) (2 / 100) r q = Some (mutated, q')"
    using mutateWeights_fair [OF assms(2), of childW] by blast
  obtain child q'' where ch: "new_NeuralNetwork DEFAULT_ARCHITECTURE r q' = (child, q'')"
    by (cases "new_NeuralNetwork DEFAULT_ARCHITECTURE r q'")
  have wfc: "wf_network child" "architecture child = DEFAULT_ARCHITECTURE"
    using wf_new_NeuralNetwork [of DEFAULT_ARCHITECTURE r q']
      new_NeuralNetwork_architecture [of DEFAULT_ARCHITECTURE r q'] ch by simp_all
  have "make_child pool r p = Some (unflatten child mutated, q'')"
    using i1 i2 p1 p2 cw m ch wfc
    by (simp add: make_child_def nth_opt_def getWeights_wf setWeights_wf)
  moreover have "wf_network (unflatten child mutated)" by (rule wf_unflatten)
  moreover have "architecture (unflatten child mutated) = DEFAULT_ARCHITECTURE"
    using wfc by simp
  ultimately show ?thesis by blast
qed

lemma offspring_loop_children:
  assumes "\<And>p. \<exists>c p'. make_child pool r p = Some (c, p') \<and> Q c"
  shows "\<exists>ys p'. offspring_loop pool N nx r p = Some (nx @ ys, p') \<and>
           length (nx @ ys) = max N (length nx) \<and> (\<forall>y\<in>set ys. Q y)"
  using assms
proof (induction pool N nx r p rule: offspring_loop.induct)
  case (1 parentsPool populationSize nextNetworks r p)
  note IH = "1.IH" and pr = "1.prems"
  show ?case
  proof (cases "length nextNetworks < populationSize")
    case True
    obtain c p' where c: "make_child parentsPool r p = Some (c, p')" "Q c"
      using pr [of p] by blast
    from IH [OF True c(1) refl pr]
    obtain ys p'' where
      "offspring_loop parentsPool populationSize (nextNetworks @ [c]) r p' =
         Some ((nextNetworks @ [c]) @ ys, p'')"
      "length ((nextNetworks @ [c]) @ ys) = max populationSize (length (nextNetworks @ [c]))"
      "\<forall>y\<in>set ys. Q y" by blast
    then have "offspring_loop parentsPool populationSize nextNetworks r p =
         Some (nextNetworks @ (c # ys), p'')"
      "length (nextNetworks @ (c # ys)) = max populationSize (length nextNetworks)"
      "\<forall>y\<in>set (c # ys). Q y"
      using True c by (simp_all add: max_def)
    then show ?thesis by blast
  next
    case False
    then have "offspring_loop parentsPool populationSize nextNetworks r p =
         Some (nextNetworks @ [], p)" by simp
    then show ?thesis using False by (intro exI [of _ "[]"] exI [of _ p]) (simp add: max_def)
  qed
qed

lemma offspring_loop_ok:
  assumes "valid_rng r" "fair_rng r" "pool \<noteq> []"
    and "\<forall>x\<in>set pool. \<exists>net. x = Some net \<and> wf_network net"
  shows "\<exists>ys p'. offspring_loop pool N nx r p = Some (nx @ ys, p') \<and>
           length (nx @ ys) = max N (length nx) \<and>
           (\<forall>y\<in>set ys. wf_network y \<and> architecture y = DEFAULT_ARCHITECTURE)"
  by (rule offspring_loop_children) (rule make_child_ok [OF assms])

subsection \<open>Diversity survivors\<close>

lemma survivors_loop_ok:
  assumes "\<forall>net\<in>set nets. wf_network net"
    and "\<forall>j<rs. j < length sh \<and> sh ! j < length nets"
  shows "\<exists>ys p'. survivors_loop nets b sh rs i nx r p = Some (nx @ ys, p') \<and>
           (length nx \<le> length nets \<longrightarrow> length (nx @ ys) \<le> length nets) \<and>
           (\<forall>y\<in>set ys. wf_network y \<and> (\<exists>net\<in>set nets. architecture y = architecture net))"
  using assms
proof (induction nets b sh rs i nx r p rule: survivors_loop.induct)
  case (1 nets bestIdx sh rs i nx r p)
  note IH = "1.IH" and pr = "1.prems"
  show ?case
  proof (cases "i < rs \<and> length nx < length nets")
    case False
    then have "survivors_loop nets bestIdx sh rs i nx r p = Some (nx @ [], p)" by auto
    then show ?thesis by (intro exI [of _ "[]"] exI [of _ p]) simp
  next
    case True
    then have i: "i < length sh" "sh ! i < length nets" using pr(2) by simp_all
    then have sh: "nth_opt sh i = Some (sh ! i)" by (simp add: nth_opt_def)
    show ?thesis
    proof (cases "sh ! i = bestIdx")
      case same: True
      from IH(2) [OF True sh _ pr] same
      obtain ys p' where
        "survivors_loop nets bestIdx sh rs (Suc i) nx r p = Some (nx @ ys, p')"
        "length nx \<le> length nets \<longrightarrow> length (nx @ ys) \<le> length nets"
        "\<forall>y\<in>set ys. wf_network y \<and> (\<exists>net\<in>set nets. architecture y = architecture net)"
        by blast
      then show ?thesis using True sh same by auto
    next
      case diff: False
      have net: "nth_opt nets (sh ! i) = Some (nets ! (sh ! i))" "wf_network (nets ! (sh ! i))"
        using i pr(1) by (simp_all add: nth_opt_def)
      obtain c p1 where c: "clone (nets ! (sh ! i)) r p = Inr (c, p1)" "wf_network c"
        "architecture c = architecture (nets ! (sh ! i))"
        using clone_wf [OF net(2), of r p] by blast
      have carch: "\<exists>net\<in>set nets. architecture c = architecture net"
        using c(3) i(2) by (metis nth_mem)
      have okc: "ok (clone (nets ! (sh ! i)) r p) = Some (c, p1)" using c(1) by simp
      from IH(1) [OF True sh diff net(1) okc refl pr]
      obtain ys p' where ys:
        "survivors_loop nets bestIdx sh rs (Suc i) (nx @ [c]) r p1 = Some ((nx @ [c]) @ ys, p')"
        "length (nx @ [c]) \<le> length nets \<longrightarrow> length ((nx @ [c]) @ ys) \<le> length nets"
        "\<forall>y\<in>set ys. wf_network y \<and> (\<exists>net\<in>set nets. architecture y = architecture net)"
        by blast
      have "survivors_loop nets bestIdx sh rs i nx r p = Some (nx @ (c # ys), p')"
        using True sh diff net okc ys(1) by simp
      moreover have "length nx \<le> length nets \<longrightarrow> length (nx @ (c # ys)) \<le> length nets"
        using True ys(2) by simp
      moreover have "\<forall>y\<in>set (c # ys). wf_network y \<and>
                       (\<exists>net\<in>set nets. architecture y = architecture net)"
        using c(2) carch ys(3) by simp
      ultimately show ?thesis by blast
    qed
  qed
qed


subsection \<open>Ranking\<close>

lemma set_insert_ranked [simp]: "set (insert_ranked a xs) = insert a (set xs)"
  by (induction xs) auto

lemma insert_ranked_nonempty [simp]: "insert_ranked a xs \<noteq> []"
  by (cases xs) simp_all

lemma set_foldr_insert_ranked [simp]: "set (foldr insert_ranked xs []) = set xs"
  by (induction xs) simp_all

lemma hd_insert_ranked:
  "hd (insert_ranked a xs) =
     (if xs \<noteq> [] \<and> Fin 0 < fst (hd xs) - fst a then hd xs else a)"
  by (cases xs) simp_all

lemma rank_indices_first:
  assumes "fit \<noteq> []"
  shows "\<exists>b. nth_opt (rank_indices fit) 0 = Some b \<and> b < length fit"
proof -
  let ?s = "foldr insert_ranked (zip fit [0..<length fit]) []"
  have ne: "zip fit [0..<length fit] \<noteq> []" using assms by (cases fit) (simp_all add: upt_rec)
  then have "?s \<noteq> []" by (cases "zip fit [0..<length fit]") simp_all
  then have "hd ?s \<in> set ?s" by (rule hd_in_set)
  then have "hd ?s \<in> set (zip fit [0..<length fit])" by simp
  then have "snd (hd ?s) < length fit" by (auto simp: in_set_zip)
  moreover have "nth_opt (rank_indices fit) 0 = Some (snd (hd ?s))"
    using \<open>?s \<noteq> []\<close> by (simp add: nth_opt_def rank_indices_def hd_conv_nth [symmetric] hd_map)
  ultimately show ?thesis by blast
qed

lemma Number_isFinite_Fin: "Number_isFinite x \<Longrightarrow> \<exists>a. x = Fin a"
  by (cases x) simp_all

lemma Fin_diff_pos [simp]: "(Fin 0 < Fin y - Fin x) = (x < y)"
  by (simp add: number_ops)

text \<open>Among finite fitness values the first ranked pair is the first maximum.\<close>

lemma ranked_head:
  assumes "xs \<noteq> []" "\<forall>x\<in>set xs. Number_isFinite (fst x)"
  shows "\<exists>k<length xs. hd (foldr insert_ranked xs []) = xs ! k \<and>
           (\<forall>j<length xs. fst (xs ! j) \<le> fst (xs ! k)) \<and>
           (\<forall>j<k. fst (xs ! j) < fst (xs ! k))"
  using assms
proof (induction xs)
  case Nil
  then show ?case by simp
next
  case (Cons x xs)
  obtain a where a: "fst x = Fin a" using Cons.prems(2) Number_isFinite_Fin by auto
  show ?case
  proof (cases "xs = []")
    case True
    then show ?thesis using a by (auto simp: number_ops)
  next
    case False
    then obtain k where k: "k < length xs" "hd (foldr insert_ranked xs []) = xs ! k"
      "\<forall>j<length xs. fst (xs ! j) \<le> fst (xs ! k)" "\<forall>j<k. fst (xs ! j) < fst (xs ! k)"
      using Cons by auto
    have "Number_isFinite (fst (xs ! k))" using Cons.prems(2) k(1) by simp
    then obtain b where b: "fst (xs ! k) = Fin b" using Number_isFinite_Fin by blast
    have fin: "\<forall>j<length xs. \<exists>c. fst (xs ! j) = Fin c"
    proof (intro allI impI)
      fix j assume "j < length xs"
      then have "Number_isFinite (fst (xs ! j))" using Cons.prems(2) by simp
      then show "\<exists>c. fst (xs ! j) = Fin c" by (rule Number_isFinite_Fin)
    qed
    have ne: "foldr insert_ranked xs [] \<noteq> []" using False by (cases xs) simp_all
    show ?thesis
    proof (cases "a < b")
      case True
      then have "hd (foldr insert_ranked (x # xs) []) = (x # xs) ! Suc k"
        using k(2) a b ne by (simp add: hd_insert_ranked)
      moreover have "\<forall>j<length (x # xs). fst ((x # xs) ! j) \<le> fst ((x # xs) ! Suc k)"
      proof (intro allI impI)
        fix j assume "j < length (x # xs)"
        then show "fst ((x # xs) ! j) \<le> fst ((x # xs) ! Suc k)"
          using True a b k(3) by (cases j) (auto simp: number_ops)
      qed
      moreover have "\<forall>j<Suc k. fst ((x # xs) ! j) < fst ((x # xs) ! Suc k)"
      proof (intro allI impI)
        fix j assume "j < Suc k"
        then show "fst ((x # xs) ! j) < fst ((x # xs) ! Suc k)"
          using True a b k(4) by (cases j) (auto simp: number_ops)
      qed
      ultimately show ?thesis using k(1) by (intro exI [of _ "Suc k"]) simp
    next
      case False
      then have "hd (foldr insert_ranked (x # xs) []) = (x # xs) ! 0"
        using k(2) a b ne by (simp add: hd_insert_ranked)
      moreover have "\<forall>j<length (x # xs). fst ((x # xs) ! j) \<le> fst ((x # xs) ! 0)"
      proof (intro allI impI)
        fix j assume j: "j < length (x # xs)"
        show "fst ((x # xs) ! j) \<le> fst ((x # xs) ! 0)"
        proof (cases j)
          case 0
          then show ?thesis using a by (simp add: number_ops)
        next
          case (Suc j')
          then have j': "j' < length xs" using j by simp
          then obtain c where c: "fst (xs ! j') = Fin c" using fin by blast
          have "fst (xs ! j') \<le> fst (xs ! k)" using k(3) j' by simp
          then have "c \<le> b" using c b by (simp add: number_ops)
          then show ?thesis using Suc a c False by (simp add: number_ops)
        qed
      qed
      ultimately show ?thesis by (intro exI [of _ 0]) simp
    qed
  qed
qed

lemma rank_indices_best:
  assumes "fit \<noteq> []" "\<forall>x\<in>set fit. Number_isFinite x"
  shows "\<exists>b<length fit. nth_opt (rank_indices fit) 0 = Some b \<and>
           (\<forall>j<length fit. fit ! j \<le> fit ! b) \<and> (\<forall>j<b. fit ! j < fit ! b)"
proof -
  let ?xs = "zip fit [0..<length fit]"
  have len: "length ?xs = length fit" by simp
  have ne: "?xs \<noteq> []" using assms(1) by (cases fit) (simp_all add: upt_rec)
  have fin: "\<forall>x\<in>set ?xs. Number_isFinite (fst x)"
    using assms(2) by (auto simp: in_set_zip)
  from ranked_head [OF ne fin] obtain k where k: "k < length fit"
    "hd (foldr insert_ranked ?xs []) = ?xs ! k"
    "\<forall>j<length ?xs. fst (?xs ! j) \<le> fst (?xs ! k)"
    "\<forall>j<k. fst (?xs ! j) < fst (?xs ! k)" by auto
  have s: "foldr insert_ranked ?xs [] \<noteq> []" using ne by (cases ?xs) simp_all
  have "nth_opt (rank_indices fit) 0 = Some k"
    using s k(1,2) by (simp add: nth_opt_def rank_indices_def hd_conv_nth [symmetric] hd_map)
  moreover have "\<forall>j<length fit. fit ! j \<le> fit ! k" using k(1,3) by simp
  moreover have "\<forall>j<k. fit ! j < fit ! k" using k(1,4) by simp
  ultimately show ?thesis using k(1) by blast
qed

subsection \<open>The generation rollover\<close>

lemma next_generation_ok:
  assumes "nets \<noteq> []" "\<forall>net\<in>set nets. wf_network net" "wf_network best"
    and "\<forall>j < length nets div 10. j < length sh \<and> sh ! j < length nets"
    and "valid_rng r" "fair_rng r"
  shows "\<exists>elite rest p'.
           next_generation nets fit bestIdx best sh k r p = Some (elite # rest, p') \<and>
           length (elite # rest) = length nets \<and>
           flatten elite = flatten best \<and> architecture elite = architecture best \<and>
           (\<forall>y\<in>set (elite # rest). wf_network y) \<and>
           (\<forall>y\<in>set rest. architecture y = DEFAULT_ARCHITECTURE \<or>
                           (\<exists>net\<in>set nets. architecture y = architecture net))"
proof -
  let ?N = "length nets"
  obtain pool p1 where pool: "buildParentsPool nets fit (max 2 (?N div 4)) r p = (pool, p1)"
    by (cases "buildParentsPool nets fit (max 2 (?N div 4)) r p")
  have pos: "0 < ?N" using assms(1) by simp
  from buildParentsPool_ok [OF assms(5) pos, of fit "max 2 (?N div 4)" p] pool
  have pl: "length pool = ?N" "\<forall>x\<in>set pool. \<exists>net\<in>set nets. x = Some net" by simp_all
  then have pne: "pool \<noteq> []" using pos by auto
  have pwf: "\<forall>x\<in>set pool. \<exists>net. x = Some net \<and> wf_network net"
    using pl(2) assms(2) by blast
  obtain elite p2 where el: "clone best r p1 = Inr (elite, p2)" "wf_network elite"
    "architecture elite = architecture best" "flatten elite = flatten best"
    using clone_wf [OF assms(3), of r p1] by blast
  from survivors_loop_ok [OF assms(2,4), of bestIdx 0 "[elite]" r "p2 + k"]
  obtain ys p3 where sv:
    "survivors_loop nets bestIdx sh (?N div 10) 0 [elite] r (p2 + k) = Some ([elite] @ ys, p3)"
    "length ([elite] @ ys) \<le> ?N"
    "\<forall>y\<in>set ys. wf_network y \<and> (\<exists>net\<in>set nets. architecture y = architecture net)"
    using pos by auto
  from offspring_loop_ok [OF assms(5,6) pne pwf, of ?N "[elite] @ ys" p3]
  obtain zs p4 where off:
    "offspring_loop pool ?N ([elite] @ ys) r p3 = Some (([elite] @ ys) @ zs, p4)"
    "length (([elite] @ ys) @ zs) = max ?N (length ([elite] @ ys))"
    "\<forall>y\<in>set zs. wf_network y \<and> architecture y = DEFAULT_ARCHITECTURE" by blast
  have "next_generation nets fit bestIdx best sh k r p = Some (elite # (ys @ zs), p4)"
    using pool el(1) sv(1) off(1) by (simp add: next_generation_def Let_def)
  moreover have "length (elite # (ys @ zs)) = ?N" using off(2) sv(2) by (simp add: max_def)
  moreover have "\<forall>y\<in>set (elite # (ys @ zs)). wf_network y"
    using el(2) sv(3) off(3) by auto
  moreover have "\<forall>y\<in>set (ys @ zs). architecture y = DEFAULT_ARCHITECTURE \<or>
                           (\<exists>net\<in>set nets. architecture y = architecture net)"
    using sv(3) off(3) by auto
  ultimately show ?thesis using el(3,4) by blast
qed

lemma handleGenerationEnd_ok:
  assumes "networks g \<noteq> []" "length (fitness g) = length (networks g)"
    and "\<forall>net\<in>set (networks g). wf_network net"
    and "valid_shuffle (length (networks g)) sh" "valid_rng r" "fair_rng r"
  shows "\<exists>bestIdx elite rest p'.
           nth_opt (rank_indices (fitness g)) 0 = Some bestIdx \<and>
           bestIdx < length (networks g) \<and>
           handleGenerationEnd g sh k r p =
             Some (handleRestart
                     ((store_best g (js_nth (fitness g) bestIdx)
                         (flatten (networks g ! bestIdx)))
                      \<lparr>networks := elite # rest,
                        fitness := replicate (length (networks g)) (Fin 0),
                        generation := generation g + 1\<rparr>), p') \<and>
           length (elite # rest) = length (networks g) \<and>
           flatten elite = flatten (networks g ! bestIdx) \<and>
           architecture elite = architecture (networks g ! bestIdx) \<and>
           (\<forall>y\<in>set (elite # rest). wf_network y) \<and>
           (\<forall>y\<in>set rest. architecture y = DEFAULT_ARCHITECTURE \<or>
                           (\<exists>net\<in>set (networks g). architecture y = architecture net))"
proof -
  let ?N = "length (networks g)"
  have fne: "fitness g \<noteq> []" using assms(1,2) by auto
  from rank_indices_first [OF fne] obtain b where
    b: "nth_opt (rank_indices (fitness g)) 0 = Some b" "b < ?N" using assms(2) by auto
  have best: "nth_opt (networks g) b = Some (networks g ! b)" "wf_network (networks g ! b)"
    using b(2) assms(3) by (simp_all add: nth_opt_def)
  have sh: "\<forall>j < ?N div 10. j < length sh \<and> sh ! j < ?N"
    using assms(4) by (auto simp: valid_shuffle_def list_all_length)
  from next_generation_ok [OF assms(1,3) best(2) sh assms(5,6), of "fitness g" b k p]
  obtain elite rest p' where ng:
    "next_generation (networks g) (fitness g) b (networks g ! b) sh k r p = Some (elite # rest, p')"
    "length (elite # rest) = ?N" "flatten elite = flatten (networks g ! b)"
    "architecture elite = architecture (networks g ! b)"
    "\<forall>y\<in>set (elite # rest). wf_network y"
    "\<forall>y\<in>set rest. architecture y = DEFAULT_ARCHITECTURE \<or>
                    (\<exists>net\<in>set (networks g). architecture y = architecture net)" by blast
  have g1: "generation (store_best g x w) = generation g" for x w
    by (simp add: store_best_def)
  have "handleGenerationEnd g sh k r p =
          Some (handleRestart
                  ((store_best g (js_nth (fitness g) b) (flatten (networks g ! b)))
                   \<lparr>networks := elite # rest,
                     fitness := replicate ?N (Fin 0),
                     generation := generation g + 1\<rparr>), p')"
    using b(1) best ng(1,2)
    by (simp add: handleGenerationEnd_def getWeights_wf Let_def g1 del: length_Cons)
  with b ng(2-) show ?thesis by blast
qed

section \<open>Properties of the tick\<close>

subsection \<open>Dead runners\<close>

lemma js_nth_js_update: "js_nth (js_update xs j v) i = (if i = j then v else js_nth xs i)"
  by (auto simp: js_nth_def js_update_def nth_append)

lemma control_trex_frozen:
  assumes "frozen i f g" "control_trex g j c m dt = Inr g'"
  shows "frozen i f g' \<and> length (tRexes g') = length (tRexes g)"
proof (cases "alive (tRexes g ! j)")
  case False
  then have "g' = g" using assms(2) by (simp add: control_trex_def Let_def)
  then show ?thesis using assms(1) by simp
next
  case True
  then have ne: "j \<noteq> i" using assms(1) by (auto simp: frozen_def)
  obtain inputs stored' where gi: "getGameInputsForNN g (tRexes g ! j) c m = (inputs, stored')"
    by (cases "getGameInputsForNN g (tRexes g ! j) c m")
  from assms(2) True gi obtain outputs net' where
    p: "predict (networks g ! j) (inputs_vector inputs) = Inr (outputs, net')"
    by (cases "predict (networks g ! j) (inputs_vector inputs)")
      (auto simp: control_trex_def Let_def)
  from assms(2) True gi p
  have "tRexes g' ! i = tRexes g ! i" "length (tRexes g') = length (tRexes g)"
    "js_nth (fitness g') i = js_nth (fitness g) i"
    using ne by (auto simp: control_trex_def Let_def js_nth_js_update split: prod.splits)
  then show ?thesis using assms(1) by (simp add: frozen_def)
qed

lemma control_fold_frozen:
  assumes "frozen i f g"
    and "fold (\<lambda>j acc. and_then acc (\<lambda>g'. control_trex g' j c m dt)) js (Inr g) = Inr g'"
  shows "frozen i f g' \<and> length (tRexes g') = length (tRexes g)"
  using assms
proof (induction js arbitrary: g)
  case Nil
  then show ?case by simp
next
  case (Cons j js)
  show ?case
  proof (cases "control_trex g j c m dt")
    case (Inl e)
    have "fold (\<lambda>j acc. and_then acc (\<lambda>g'. control_trex g' j c m dt)) js (Inl e) = Inl e"
      by (induction js) simp_all
    then show ?thesis using Cons.prems(2) Inl by simp
  next
    case (Inr g1)
    from control_trex_frozen [OF Cons.prems(1) Inr]
    have f1: "frozen i f g1" "length (tRexes g1) = length (tRexes g)" by simp_all
    from Cons.IH [OF f1(1)] Cons.prems(2) Inr f1(2) show ?thesis by simp
  qed
qed

lemma control_loop_frozen:
  "frozen i f g \<Longrightarrow> control_loop g c m dt = Inr g' \<Longrightarrow> frozen i f g'"
  using control_fold_frozen [of i f g c m dt "[0..<length (tRexes g)]" g']
  by (simp add: control_loop_def)

lemma updateAllTRexes_frozen: "frozen i f g \<Longrightarrow> frozen i f (updateAllTRexes g dt now)"
  by (simp add: frozen_def updateAllTRexes_def update_one_trex_def)

lemma checkCollisions_frozen: "frozen i f g \<Longrightarrow> frozen i f (checkCollisions g)"
  by (auto simp: frozen_def checkCollisions_def check_trex_def split: list.splits)

lemma advance_clock_frozen: "frozen i f g \<Longrightarrow> frozen i f (advance_clock g dt)"
  by (simp add: frozen_def advance_clock_def Let_def)

lemma control_phase_frozen:
  "frozen i f g \<Longrightarrow> control_phase g dt = Inr g' \<Longrightarrow> frozen i f g'"
  by (auto simp: control_phase_def split: prod.splits if_splits dest: control_loop_frozen)

lemma world_phase_frozen: "frozen i f g \<Longrightarrow> frozen i f (world_phase g env)"
proof -
  assume f: "frozen i f g"
  have "frozen i f ((updateAllTRexes g (env_deltaTime env) (env_now env))
                      \<lparr>obstacles := env_obstacles env\<rparr>)"
    using updateAllTRexes_frozen [OF f, of "env_deltaTime env" "env_now env"]
    by (simp add: frozen_def)
  then show ?thesis by (simp add: world_phase_def Let_def checkCollisions_frozen)
qed

lemma update_frozen:
  assumes "frozen i f g" "update g env = Inr g'"
  shows "frozen i f g'"
proof (cases "playing g")
  case False
  then show ?thesis using assms by (simp add: update_def)
next
  case True
  then obtain g3 where g3: "control_phase (advance_clock g (env_deltaTime env)) (env_deltaTime env) = Inr g3"
    "g' = world_phase g3 env"
    using assms(2)
    by (cases "control_phase (advance_clock g (env_deltaTime env)) (env_deltaTime env)")
      (simp_all add: update_def)
  from control_phase_frozen [OF advance_clock_frozen [OF assms(1)] g3(1)]
  show ?thesis using g3(2) by (simp add: world_phase_frozen)
qed

text \<open>
  Claim C8. If runner \<open>i\<close> is dead at the start of a tick, then after any number of ticks
  of the same generation that return, its fitness entry is what it was and it is still
  dead: the control loop skips it, and no other runner's turn writes its entry.
\<close>

theorem dead_fitness_frozen:
  assumes "i < length (tRexes g)" and "\<not> alive (tRexes g ! i)"
    and "run_ticks g envs = Inr g'"
  shows "js_nth (fitness g') i = js_nth (fitness g) i \<and> \<not> alive (tRexes g' ! i)"
proof -
  have "frozen i (js_nth (fitness g) i) g" using assms(1,2) by (simp add: frozen_def)
  moreover have "frozen i f g \<Longrightarrow> run_ticks g envs = Inr g' \<Longrightarrow> frozen i f g'" for f
    unfolding run_ticks_def
  proof (induction envs arbitrary: g)
    case Nil
    then show ?case by simp
  next
    case (Cons env envs)
    show ?case
    proof (cases "update g env")
      case (Inl e)
      have "fold (\<lambda>env acc. and_then acc (\<lambda>g'. update g' env)) envs (Inl e) = Inl e"
        by (induction envs) simp_all
      then show ?thesis using Cons.prems(2) Inl by simp
    next
      case (Inr g1)
      from update_frozen [OF Cons.prems(1) Inr] Cons.IH [of g1] Cons.prems(2) Inr
      show ?thesis by simp
    qed
  qed
  ultimately show ?thesis using assms(3) by (auto simp: frozen_def)
qed


subsection \<open>What a tick keeps\<close>

lemma record_kept_refl [simp]: "record_kept g g"
  by (simp add: record_kept_def)

lemma record_kept_trans: "record_kept g g1 \<Longrightarrow> record_kept g1 g2 \<Longrightarrow> record_kept g g2"
  by (simp add: record_kept_def)

lemma fold_and_then_Inl:
  "fold (\<lambda>x acc. and_then acc (\<lambda>s. f s x)) xs (Inl e) = Inl e"
  by (induction xs) simp_all

lemma fold_and_then_invariant:
  assumes "fold (\<lambda>x acc. and_then acc (\<lambda>s. f s x)) xs (Inr s0) = Inr s'"
    and "P s0" and "\<And>s x t. P s \<Longrightarrow> f s x = Inr t \<Longrightarrow> P t"
  shows "P s'"
  using assms(1,2)
proof (induction xs arbitrary: s0)
  case Nil
  then show ?case by simp
next
  case (Cons x xs)
  show ?case
  proof (cases "f s0 x")
    case (Inl e)
    then show ?thesis using Cons.prems(1) by (simp add: fold_and_then_Inl)
  next
    case (Inr s1)
    have p1: "P s1" using Cons.prems(2) Inr by (rule assms(3))
    have "fold (\<lambda>x acc. and_then acc (\<lambda>s. f s x)) xs (Inr s1) = Inr s'"
      using Cons.prems(1) Inr by simp
    then show ?thesis using p1 by (rule Cons.IH)
  qed
qed

lemma fold_and_then_total:
  assumes "P s0" and "\<And>s x. P s \<Longrightarrow> x \<in> set xs \<Longrightarrow> \<exists>t. f s x = Inr t \<and> P t"
  shows "\<exists>s'. fold (\<lambda>x acc. and_then acc (\<lambda>s. f s x)) xs (Inr s0) = Inr s' \<and> P s'"
  using assms
proof (induction xs arbitrary: s0)
  case Nil
  then show ?case by simp
next
  case (Cons x xs)
  have "x \<in> set (x # xs)" by simp
  with Cons.prems(1) have "\<exists>t. f s0 x = Inr t \<and> P t" by (rule Cons.prems(2))
  then obtain s1 where s1: "f s0 x = Inr s1" "P s1" by blast
  have "\<exists>s'. fold (\<lambda>x acc. and_then acc (\<lambda>s. f s x)) xs (Inr s1) = Inr s' \<and> P s'"
  proof (rule Cons.IH [OF s1(2)])
    fix s y assume "P s" "y \<in> set xs"
    then show "\<exists>t. f s y = Inr t \<and> P t" using Cons.prems(2) [of s y] by simp
  qed
  then show ?case using s1(1) by simp
qed

lemma updateTRexStatus_alive [simp]: "alive (updateTRexStatus t s) = alive t"
  by (simp add: updateTRexStatus_def)

lemma updateTRexStatus_status [simp]: "status (updateTRexStatus t s) = s"
  by (simp add: updateTRexStatus_def)

lemma apply_action_alive [simp]: "alive (apply_action g t a c m) = alive t"
  by (simp add: apply_action_def startTRexJump_def release_duck_def split: option.splits)

lemma apply_action_status:
  "status (apply_action g t a c m) \<in> {status t, JUMPING, DUCKING, RUNNING}"
proof (cases c)
  case None
  then show ?thesis by (simp add: apply_action_def startTRexJump_def release_duck_def)
next
  case (Some ob)
  then show ?thesis by (simp add: apply_action_def startTRexJump_def release_duck_def)
qed

lemma control_trex_dead:
  "\<not> alive (tRexes g ! j) \<Longrightarrow> control_trex g j c m dt = Inr g"
  by (simp add: control_trex_def Let_def)

lemma control_trex_result:
  assumes "control_trex g j c m dt = Inr g'" "alive (tRexes g ! j)"
  shows "\<exists>outputs net' f' obs'.
           predict (networks g ! j)
             (inputs_vector (fst (getGameInputsForNN g (tRexes g ! j) c m))) =
             Inr (outputs, net') \<and>
           g' = g\<lparr>tRexes := (tRexes g)[j := apply_action g (tRexes g ! j)
                                 (select_action outputs (tRexes g ! j) c m) c m],
                  networks := (networks g)[j := net'],
                  fitness := js_update (fitness g) j f', obstacles := obs',
                  prevDist := snd (getGameInputsForNN g (tRexes g ! j) c m)\<rparr>"
proof -
  let ?gi = "getGameInputsForNN g (tRexes g ! j) c m"
  obtain outputs net' where
    p: "predict (networks g ! j) (inputs_vector (fst ?gi)) = Inr (outputs, net')"
    using assms
    by (cases "predict (networks g ! j) (inputs_vector (fst ?gi))")
      (auto simp: control_trex_def Let_def split_def)
  show ?thesis
    using assms p by (simp add: control_trex_def Let_def split_def) blast
qed

lemma control_trex_kept:
  assumes "control_trex g j c m dt = Inr g'"
  shows "record_kept g g'"
proof (cases "alive (tRexes g ! j)")
  case False
  then show ?thesis using assms by (simp add: control_trex_dead)
next
  case True
  from control_trex_result [OF assms True] show ?thesis
    by (auto simp: record_kept_def)
qed

lemma control_loop_kept:
  assumes "control_loop g c m dt = Inr g'"
  shows "record_kept g g'"
proof (rule fold_and_then_invariant [where P = "record_kept g"])
  show "fold (\<lambda>x acc. and_then acc (\<lambda>s. control_trex s x c m dt))
          [0..<length (tRexes g)] (Inr g) = Inr g'"
    using assms by (simp add: control_loop_def)
  show "record_kept g g" by simp
  show "record_kept g t" if "record_kept g s" "control_trex s x c m dt = Inr t" for s x t
    using that(1) control_trex_kept [OF that(2)] by (rule record_kept_trans)
qed

lemma advance_clock_kept: "record_kept g (advance_clock g dt)"
  by (simp add: record_kept_def advance_clock_def Let_def)

lemma control_phase_kept: "control_phase g dt = Inr g' \<Longrightarrow> record_kept g g'"
  by (auto simp: control_phase_def split: prod.splits if_splits dest: control_loop_kept)

lemma world_phase_kept: "record_kept g (world_phase g env)"
  by (simp add: record_kept_def world_phase_def Let_def updateAllTRexes_def checkCollisions_def
      split: list.splits)

lemma update_kept:
  assumes "update g env = Inr g'"
  shows "record_kept g g'"
proof (cases "playing g")
  case False
  then show ?thesis using assms by (simp add: update_def)
next
  case True
  then obtain g3 where g3: "control_phase (advance_clock g (env_deltaTime env)) (env_deltaTime env) = Inr g3"
    "g' = world_phase g3 env"
    using assms
    by (cases "control_phase (advance_clock g (env_deltaTime env)) (env_deltaTime env)")
      (simp_all add: update_def)
  show ?thesis
    using record_kept_trans [OF record_kept_trans [OF advance_clock_kept control_phase_kept [OF g3(1)]]
        world_phase_kept [of g3 env]] g3(2) by simp
qed

subsection \<open>A tick on a population of well-formed networks returns\<close>

lemma pop_ok_networks:
  "pop_ok g \<Longrightarrow> j < length (networks g) \<Longrightarrow>
   wf_network (networks g ! j) \<and> inputSize (architecture (networks g ! j)) = 12"
  by (simp add: pop_ok_def list_all_length)

lemma length_inputs_vector [simp]: "length (inputs_vector gi) = 12"
  by (simp add: inputs_vector_def)

lemma control_trex_ok:
  assumes "pop_ok g" "j < length (networks g)"
  shows "\<exists>g'. control_trex g j c m dt = Inr g' \<and> pop_ok g' \<and>
           length (networks g') = length (networks g)"
proof (cases "alive (tRexes g ! j)")
  case False
  then show ?thesis using assms by (simp add: control_trex_dead)
next
  case True
  let ?gi = "getGameInputsForNN g (tRexes g ! j) c m"
  let ?n = "networks g ! j"
  have wf: "wf_network ?n" "length (inputs_vector (fst ?gi)) = inputSize (architecture ?n)"
    using pop_ok_networks [OF assms] by simp_all
  from predict_wf [OF wf] obtain h1 h2 out where
    p: "predict ?n (inputs_vector (fst ?gi)) =
          Inr (out, ?n\<lparr>lastInputs := inputs_vector (fst ?gi), lastHidden1 := h1,
                       lastHidden2 := h2, lastOutputs := out\<rparr>)" by blast
  let ?n' = "?n\<lparr>lastInputs := inputs_vector (fst ?gi), lastHidden1 := h1,
                       lastHidden2 := h2, lastOutputs := out\<rparr>"
  have n': "wf_network ?n' \<and> inputSize (architecture ?n') = 12"
    using pop_ok_networks [OF assms] by (simp add: wf_network_def)
  obtain g' where g': "control_trex g j c m dt = Inr g'"
    using True p by (simp add: control_trex_def Let_def split_def)
  from control_trex_result [OF g' True] p obtain f' obs' t' where
    eq: "g' = g\<lparr>tRexes := (tRexes g)[j := t'], networks := (networks g)[j := ?n'],
                fitness := js_update (fitness g) j f', obstacles := obs',
                prevDist := snd ?gi\<rparr>" by auto
  have "list_all (\<lambda>n. wf_network n \<and> inputSize (architecture n) = 12) ((networks g)[j := ?n'])"
    using assms n' by (auto simp: pop_ok_def list_all_length nth_list_update)
  moreover have "length (js_update (fitness g) j f') = length (fitness g)"
    using assms by (simp add: js_update_def pop_ok_def)
  ultimately have "pop_ok g'" using assms(1) by (simp add: eq pop_ok_def)
  then show ?thesis using g' eq by simp
qed

lemma control_loop_ok:
  assumes "pop_ok g" "length (networks g) = length (tRexes g)"
  shows "\<exists>g'. control_loop g c m dt = Inr g' \<and> pop_ok g'"
proof -
  let ?P = "\<lambda>s. pop_ok s \<and> length (networks s) = length (networks g)"
  have "\<exists>s'. fold (\<lambda>x acc. and_then acc (\<lambda>s. control_trex s x c m dt))
               [0..<length (tRexes g)] (Inr g) = Inr s' \<and> ?P s'"
  proof (rule fold_and_then_total [where P = ?P])
    show "?P g" using assms by simp
  next
    fix s x assume "?P s" "x \<in> set [0..<length (tRexes g)]"
    then have "pop_ok s" "x < length (networks s)" using assms(2) by simp_all
    from control_trex_ok [OF this, of c m dt] \<open>?P s\<close>
    show "\<exists>t. control_trex s x c m dt = Inr t \<and> ?P t" by auto
  qed
  then show ?thesis by (auto simp: control_loop_def)
qed

lemma pop_ok_cong:
  "networks g' = networks g \<Longrightarrow> fitness g' = fitness g \<Longrightarrow> pop_ok g' = pop_ok g"
  by (simp add: pop_ok_def)

lemma update_ok:
  assumes "pop_ok g"
  shows "\<exists>g'. update g env = Inr g' \<and> pop_ok g'"
proof (cases "playing g")
  case False
  then show ?thesis using assms by (simp add: update_def)
next
  case True
  let ?g2 = "advance_clock g (env_deltaTime env)"
  have p2: "pop_ok ?g2"
    using assms by (simp add: pop_ok_def advance_clock_def Let_def)
  have "\<exists>g3. control_phase ?g2 (env_deltaTime env) = Inr g3 \<and> pop_ok g3"
  proof (cases "tRexes ?g2 \<noteq> [] \<and> length (networks ?g2) = length (tRexes ?g2)")
    case True
    then show ?thesis
      using control_loop_ok [OF p2, of "fst (global_closest (obstacles ?g2))"
          "snd (global_closest (obstacles ?g2))" "env_deltaTime env"]
      by (simp add: control_phase_def split_def Let_def)
  next
    case False
    then show ?thesis using p2 by (auto simp: control_phase_def split_def Let_def)
  qed
  then obtain g3 where g3: "control_phase ?g2 (env_deltaTime env) = Inr g3" "pop_ok g3" by blast
  have "pop_ok (world_phase g3 env)"
    using g3(2)
    by (simp add: pop_ok_def world_phase_def Let_def updateAllTRexes_def checkCollisions_def
        split: list.splits)
  then show ?thesis using True g3(1) by (simp add: update_def)
qed

subsection \<open>The example game\<close>

lemma wf_zero_network: "wf_network zero_network"
  by (simp add: wf_network_def wf_matrix_def zero_network_def list_all_iff)

lemma pop_ok_example_game: "pop_ok example_game"
  by (simp add: pop_ok_def example_game_def wf_zero_network) (simp add: zero_network_def)

text \<open>
  The theorem at \<open>example_game\<close>, whose first runner is dead with fitness 7, after one tick.
\<close>

theorem dead_fitness_frozen_witness:
  "0 < length (tRexes example_game) \<and> \<not> alive (tRexes example_game ! 0) \<and>
   (\<exists>g'. run_ticks example_game [example_env] = Inr g' \<and>
         js_nth (fitness g') 0 = Fin 7 \<and> \<not> alive (tRexes g' ! 0))"
proof -
  obtain g' where g': "update example_game example_env = Inr g'"
    using update_ok [OF pop_ok_example_game] by blast
  then have run: "run_ticks example_game [example_env] = Inr g'"
    by (simp add: run_ticks_def)
  have d: "0 < length (tRexes example_game)" "\<not> alive (tRexes example_game ! 0)"
    by (simp_all add: example_game_def dead_trex_def)
  from dead_fitness_frozen [OF d run]
  have "js_nth (fitness g') 0 = Fin 7 \<and> \<not> alive (tRexes g' ! 0)"
    by (simp add: example_game_def js_nth_def)
  with run d show ?thesis by blast
qed


subsection \<open>Collisions\<close>

lemma check_obstacle_boxes_trace:
  "check_obstacle_boxes t ob tb obs = (checked, hit) \<Longrightarrow>
   (\<exists>rest. map (Pair tb) obs = checked @ rest) \<and>
   (hit \<longrightarrow> checked \<noteq> [] \<and> pair_overlaps t ob (last checked)) \<and>
   (\<forall>p\<in>set (butlast checked). \<not> pair_overlaps t ob p) \<and>
   (\<not> hit \<longrightarrow> checked = map (Pair tb) obs \<and> (\<forall>p\<in>set checked. \<not> pair_overlaps t ob p))"
proof (induction obs arbitrary: checked hit)
  case Nil
  then show ?case by auto
next
  case (Cons o1 obs)
  show ?case
  proof (cases "pair_overlaps t ob (tb, o1)")
    case True
    then have "checked = [(tb, o1)]" "hit" using Cons.prems by (auto simp: pair_overlaps_def)
    then show ?thesis using True by simp
  next
    case False
    obtain c h where ch: "check_obstacle_boxes t ob tb obs = (c, h)"
      by (cases "check_obstacle_boxes t ob tb obs")
    then have eq: "checked = (tb, o1) # c" "hit = h"
      using Cons.prems False by (auto simp: pair_overlaps_def)
    from Cons.IH [OF ch] have ih:
      "\<exists>rest. map (Pair tb) obs = c @ rest"
      "h \<longrightarrow> c \<noteq> [] \<and> pair_overlaps t ob (last c)"
      "\<forall>p\<in>set (butlast c). \<not> pair_overlaps t ob p"
      "\<not> h \<longrightarrow> c = map (Pair tb) obs \<and> (\<forall>p\<in>set c. \<not> pair_overlaps t ob p)" by auto
    have "\<forall>p\<in>set (butlast ((tb, o1) # c)). \<not> pair_overlaps t ob p"
      using ih(3) False by (cases c) auto
    then show ?thesis using eq ih False by auto
  qed
qed

lemma check_trex_boxes_trace:
  "check_trex_boxes t ob tbs = (checked, hit) \<Longrightarrow>
   (\<exists>rest. List.product tbs (ob_collisionBoxes ob) = checked @ rest) \<and>
   (hit \<longrightarrow> checked \<noteq> [] \<and> pair_overlaps t ob (last checked)) \<and>
   (\<forall>p\<in>set (butlast checked). \<not> pair_overlaps t ob p) \<and>
   (\<not> hit \<longrightarrow> checked = List.product tbs (ob_collisionBoxes ob) \<and>
                (\<forall>p\<in>set checked. \<not> pair_overlaps t ob p))"
proof (induction tbs arbitrary: checked hit)
  case Nil
  then show ?case by auto
next
  case (Cons tb tbs)
  obtain c h where ch: "check_obstacle_boxes t ob tb (ob_collisionBoxes ob) = (c, h)"
    by (cases "check_obstacle_boxes t ob tb (ob_collisionBoxes ob)")
  note inner = check_obstacle_boxes_trace [OF ch]
  show ?case
  proof (cases h)
    case True
    then have "checked = c" "hit" using Cons.prems ch by simp_all
    then show ?thesis using inner True by auto
  next
    case False
    obtain c' h' where ch': "check_trex_boxes t ob tbs = (c', h')"
      by (cases "check_trex_boxes t ob tbs")
    then have eq: "checked = c @ c'" "hit = h'" using Cons.prems ch False by simp_all
    from inner False have c: "c = map (Pair tb) (ob_collisionBoxes ob)"
      "\<forall>p\<in>set c. \<not> pair_overlaps t ob p" by simp_all
    from Cons.IH [OF ch'] have ih:
      "\<exists>rest. List.product tbs (ob_collisionBoxes ob) = c' @ rest"
      "h' \<longrightarrow> c' \<noteq> [] \<and> pair_overlaps t ob (last c')"
      "\<forall>p\<in>set (butlast c'). \<not> pair_overlaps t ob p"
      "\<not> h' \<longrightarrow> c' = List.product tbs (ob_collisionBoxes ob) \<and>
                (\<forall>p\<in>set c'. \<not> pair_overlaps t ob p)" by auto
    have b: "\<forall>p\<in>set (butlast (c @ c')). \<not> pair_overlaps t ob p"
      using c(2) ih(3) by (auto simp: butlast_append dest: in_set_butlastD)
    have "\<exists>rest. List.product (tb # tbs) (ob_collisionBoxes ob) = (c @ c') @ rest"
      using c(1) ih(1) by auto
    moreover have "h' \<longrightarrow> c @ c' \<noteq> [] \<and> pair_overlaps t ob (last (c @ c'))"
      using ih(2) by simp
    moreover have "\<not> h' \<longrightarrow> c @ c' = List.product (tb # tbs) (ob_collisionBoxes ob) \<and>
                (\<forall>p\<in>set (c @ c'). \<not> pair_overlaps t ob p)"
      using c ih(4) by auto
    ultimately show ?thesis using eq b by blast
  qed
qed

lemma check_trex_boxes_hit:
  assumes "\<exists>p\<in>set (List.product tbs (ob_collisionBoxes ob)). pair_overlaps t ob p"
  shows "snd (check_trex_boxes t ob tbs)"
proof (rule ccontr)
  assume "\<not> snd (check_trex_boxes t ob tbs)"
  then obtain c where "check_trex_boxes t ob tbs = (c, False)"
    by (cases "check_trex_boxes t ob tbs") auto
  from check_trex_boxes_trace [OF this] assms show False by auto
qed

text \<open>
  Claim C3, as amended. When an alive runner's outer box overlaps the obstacle's and some
  pair of sub-hitboxes overlaps, the runner's \<open>alive\<close> flag is set to false and nothing
  else of the runner changes: its status stays what it was. The pairs compared are an
  initial segment of all pairs in loop order, ending with the first overlapping pair: no
  pair after it is compared. In \<open>checkCollisions\<close> this happens to every such runner when
  the obstacle is the first of the list and not removed.
\<close>

theorem collision_kills:
  assumes "alive tRex" and "outer_bounds_overlap tRex obstacle"
    and "\<exists>p\<in>set (List.product (trex_collision_boxes tRex) (ob_collisionBoxes obstacle)).
           pair_overlaps tRex obstacle p"
  shows "check_trex obstacle tRex = tRex\<lparr>alive := False\<rparr> \<and>
         status (check_trex obstacle tRex) = status tRex \<and>
         (\<exists>checked rest.
            check_trex_boxes tRex obstacle (trex_collision_boxes tRex) = (checked, True) \<and>
            List.product (trex_collision_boxes tRex) (ob_collisionBoxes obstacle) =
              checked @ rest \<and>
            checked \<noteq> [] \<and> pair_overlaps tRex obstacle (last checked) \<and>
            (\<forall>p\<in>set (butlast checked). \<not> pair_overlaps tRex obstacle p)) \<and>
         (\<forall>g i more. obstacles g = obstacle # more \<and> \<not> ob_remove obstacle \<and>
            i < length (tRexes g) \<and> tRexes g ! i = tRex \<longrightarrow>
            tRexes (checkCollisions g) ! i = tRex\<lparr>alive := False\<rparr>)"
proof -
  let ?tbs = "trex_collision_boxes tRex"
  have hit: "snd (check_trex_boxes tRex obstacle ?tbs)"
    using assms(3) by (rule check_trex_boxes_hit)
  then obtain checked where c: "check_trex_boxes tRex obstacle ?tbs = (checked, True)"
    by (cases "check_trex_boxes tRex obstacle ?tbs") auto
  have k: "check_trex obstacle tRex = tRex\<lparr>alive := False\<rparr>"
    using assms(1,2) hit by (simp add: check_trex_def ENABLE_NOCLIP_def)
  from check_trex_boxes_trace [OF c] obtain rest where
    "List.product ?tbs (ob_collisionBoxes obstacle) = checked @ rest"
    "checked \<noteq> []" "pair_overlaps tRex obstacle (last checked)"
    "\<forall>p\<in>set (butlast checked). \<not> pair_overlaps tRex obstacle p" by auto
  with c have tr: "\<exists>checked rest.
            check_trex_boxes tRex obstacle ?tbs = (checked, True) \<and>
            List.product ?tbs (ob_collisionBoxes obstacle) = checked @ rest \<and>
            checked \<noteq> [] \<and> pair_overlaps tRex obstacle (last checked) \<and>
            (\<forall>p\<in>set (butlast checked). \<not> pair_overlaps tRex obstacle p)" by blast
  have g: "\<forall>g i more. obstacles g = obstacle # more \<and> \<not> ob_remove obstacle \<and>
            i < length (tRexes g) \<and> tRexes g ! i = tRex \<longrightarrow>
            tRexes (checkCollisions g) ! i = tRex\<lparr>alive := False\<rparr>"
    using k by (auto simp: checkCollisions_def)
  show ?thesis using k tr g by simp
qed


lemmas box_simps =
  outer_bounds_overlap_def boxes_overlap_def adjust_box_def mk_box_def pair_overlaps_def
  trex_collision_boxes_def TREX_COLLISION_BOXES_RUNNING_def TREX_COLLISION_BOXES_DUCKING_def
  TREX_CONFIG_WIDTH_def TREX_CONFIG_HEIGHT_def TREX_CONFIG_HEIGHT_DUCK_def number_ops

lemma example_outer_overlap: "outer_bounds_overlap example_trex (example_cactus 60)"
  by (simp add: box_simps example_trex_def example_cactus_def Let_def)

lemma example_pair_overlaps:
  "pair_overlaps example_trex (example_cactus 60) (mk_box 1 18 30 9, mk_box 0 7 5 27)"
  by (simp add: box_simps example_trex_def example_cactus_def)

lemma example_trace:
  "check_trex_boxes example_trex (example_cactus 60) (trex_collision_boxes example_trex) =
     ([(mk_box 22 0 17 16, mk_box 0 7 5 27), (mk_box 22 0 17 16, mk_box 4 0 6 34),
       (mk_box 22 0 17 16, mk_box 10 4 7 14), (mk_box 1 18 30 9, mk_box 0 7 5 27)], True)"
  by (simp add: box_simps example_trex_def example_cactus_def)

text \<open>
  The theorem at the running \<open>example_trex\<close> and a cactus at 60: the fourth of the
  eighteen pairs overlaps, four pairs are compared, the runner dies and keeps running
  as its status.
\<close>

theorem collision_kills_witness:
  "alive example_trex \<and> outer_bounds_overlap example_trex (example_cactus 60) \<and>
   pair_overlaps example_trex (example_cactus 60) (mk_box 1 18 30 9, mk_box 0 7 5 27) \<and>
   check_trex (example_cactus 60) example_trex = example_trex\<lparr>alive := False\<rparr> \<and>
   status (check_trex (example_cactus 60) example_trex) = RUNNING \<and>
   length (fst (check_trex_boxes example_trex (example_cactus 60)
                  (trex_collision_boxes example_trex))) = 4 \<and>
   length (List.product (trex_collision_boxes example_trex)
             (ob_collisionBoxes (example_cactus 60))) = 18"
proof -
  have a: "alive example_trex" by (simp add: example_trex_def)
  have p: "\<exists>p\<in>set (List.product (trex_collision_boxes example_trex)
                       (ob_collisionBoxes (example_cactus 60))).
             pair_overlaps example_trex (example_cactus 60) p"
    using example_pair_overlaps
    by (intro bexI [of _ "(mk_box 1 18 30 9, mk_box 0 7 5 27)"])
      (simp_all add: trex_collision_boxes_def TREX_COLLISION_BOXES_RUNNING_def
        example_trex_def example_cactus_def)
  have l: "length (List.product (trex_collision_boxes example_trex)
             (ob_collisionBoxes (example_cactus 60))) = 18"
    by (simp add: trex_collision_boxes_def TREX_COLLISION_BOXES_RUNNING_def
        example_trex_def example_cactus_def)
  have s: "status example_trex = RUNNING" by (simp add: example_trex_def)
  from collision_kills [OF a example_outer_overlap p]
  show ?thesis using a s example_outer_overlap example_pair_overlaps l
    by (simp add: example_trace)
qed

text \<open>
  Claim C3 as stated fails in its last part: in \<open>collision_game\<close> the second runner is
  alive and running, the collision check finds an overlapping pair and kills it, and its
  status after the check is still \<open>RUNNING\<close>, not \<open>CRASHED\<close>.
\<close>

theorem crashed_status_counterexample:
  "alive (tRexes collision_game ! 1) \<and> status (tRexes collision_game ! 1) = RUNNING \<and>
   outer_bounds_overlap (tRexes collision_game ! 1) (hd (obstacles collision_game)) \<and>
   snd (check_trex_boxes (tRexes collision_game ! 1) (hd (obstacles collision_game))
          (trex_collision_boxes (tRexes collision_game ! 1))) \<and>
   \<not> alive (tRexes (checkCollisions collision_game) ! 1) \<and>
   status (tRexes (checkCollisions collision_game) ! 1) = RUNNING \<and>
   status (tRexes (checkCollisions collision_game) ! 1) \<noteq> CRASHED"
proof -
  have t: "tRexes collision_game ! Suc 0 = example_trex"
    "hd (obstacles collision_game) = example_cactus 60"
    "obstacles collision_game = [example_cactus 60]"
    "tRexes collision_game = [dead_trex, example_trex]"
    by (simp_all add: collision_game_def example_game_def)
  have a: "alive example_trex" "status example_trex = RUNNING"
    by (simp_all add: example_trex_def)
  have k: "check_trex (example_cactus 60) example_trex = example_trex\<lparr>alive := False\<rparr>"
    using example_outer_overlap a
    by (simp add: check_trex_def ENABLE_NOCLIP_def example_trace)
  have r: "\<not> ob_remove (example_cactus 60)" by (simp add: example_cactus_def)
  have c: "tRexes (checkCollisions collision_game) ! Suc 0 = example_trex\<lparr>alive := False\<rparr>"
    using k r by (simp add: checkCollisions_def t)
  show ?thesis
    using example_outer_overlap a by (simp add: t c example_trace)
qed

subsection \<open>Feature 11\<close>

lemma resolve_closest_Some:
  "resolve_closest g t (Some ob) m = (Some ob, if Number_isFinite m then m else PInf)"
  by (simp add: resolve_closest_def)

lemma getGameInputsForNN_delta:
  "dDistance (fst (getGameInputsForNN g t c m)) =
     fst (distance_delta (prevDist g) (fst (resolve_closest g t c m))
            (snd (resolve_closest g t c m))) \<and>
   snd (getGameInputsForNN g t c m) =
     snd (distance_delta (prevDist g) (fst (resolve_closest g t c m))
            (snd (resolve_closest g t c m)))"
  by (simp add: getGameInputsForNN_def split_def Let_def)

lemma distance_delta_Some:
  "distance_delta s (Some ob) m =
     (Math_max (Fin (- 1))
        (Math_min (Fin 1) (((if s \<noteq> Undefined then s else m) - m) * FPS / Fin 600)), m)"
  by (simp add: distance_delta_def Let_def)

lemma distance_delta_None: "distance_delta s None m = (Fin 0, PInf)"
  by (simp add: distance_delta_def Let_def)

lemma inputs_with_obstacle:
  "dDistance (fst (getGameInputsForNN g t (Some ob) (Fin d))) =
     Math_max (Fin (- 1))
       (Math_min (Fin 1)
          (((if prevDist g \<noteq> Undefined then prevDist g else Fin d) - Fin d) * FPS / Fin 600)) \<and>
   snd (getGameInputsForNN g t (Some ob) (Fin d)) = Fin d"
  by (simp add: getGameInputsForNN_delta resolve_closest_Some distance_delta_Some)

lemma inputs_without_obstacle:
  "resolve_closest g t None PInf = (None, PInf) \<Longrightarrow>
   dDistance (fst (getGameInputsForNN g t None PInf)) = Fin 0 \<and>
   snd (getGameInputsForNN g t None PInf) = PInf"
  by (simp add: getGameInputsForNN_delta distance_delta_None)

lemma clamp_after_reset:
  "Math_max (Fin (- 1)) (Math_min (Fin 1) ((PInf - Fin d) * FPS / Fin 600)) = Fin 1"
  by (simp add: number_ops FPS_def Math_min_def Math_max_def)

subsection \<open>What the control loop stores\<close>

lemma control_trex_alive_kept:
  assumes "control_trex g j c m dt = Inr g'" "j < length (tRexes g)"
  shows "map alive (tRexes g') = map alive (tRexes g)"
proof (cases "alive (tRexes g ! j)")
  case False
  then show ?thesis using assms by (simp add: control_trex_dead)
next
  case True
  from control_trex_result [OF assms(1) True] obtain t' where
    "tRexes g' = (tRexes g)[j := t']" "alive t' = alive (tRexes g ! j)"
    by (auto simp: apply_action_alive)
  then have "map alive (tRexes g') = (map alive (tRexes g))[j := map alive (tRexes g) ! j]"
    using assms(2) by (simp add: map_update)
  then show ?thesis by (simp only: list_update_id)
qed

lemma control_trex_stores:
  assumes "control_trex g j (Some ob) (Fin d) dt = Inr g'" "alive (tRexes g ! j)"
  shows "prevDist g' = Fin d"
  using control_trex_result [OF assms] by (auto simp: inputs_with_obstacle)

lemma control_prefix_stores:
  assumes "k \<le> length (tRexes g)"
    and "fold (\<lambda>j acc. and_then acc (\<lambda>s. control_trex s j (Some ob) (Fin d) dt))
           [0..<k] (Inr g) = Inr g'"
  shows "map alive (tRexes g') = map alive (tRexes g) \<and>
         ((\<exists>j<k. alive (tRexes g ! j)) \<longrightarrow> prevDist g' = Fin d)"
  using assms
proof (induction k arbitrary: g')
  case 0
  then show ?case by simp
next
  case (Suc k)
  let ?f = "\<lambda>j acc. and_then acc (\<lambda>s. control_trex s j (Some ob) (Fin d) dt)"
  from Suc.prems(2) obtain s where s: "fold ?f [0..<k] (Inr g) = Inr s"
    "control_trex s k (Some ob) (Fin d) dt = Inr g'"
    by (cases "fold ?f [0..<k] (Inr g)") simp_all
  from Suc.IH [OF _ s(1)] Suc.prems(1)
  have ih: "map alive (tRexes s) = map alive (tRexes g)"
    "(\<exists>j<k. alive (tRexes g ! j)) \<longrightarrow> prevDist s = Fin d" by simp_all
  have len: "length (tRexes s) = length (tRexes g)" using ih(1) by (rule map_eq_imp_length_eq)
  then have k: "k < length (tRexes s)" using Suc.prems(1) by simp
  have ak: "alive (tRexes s ! k) = alive (tRexes g ! k)"
    using ih(1) k len by (metis nth_map)
  have a': "map alive (tRexes g') = map alive (tRexes g)"
    using control_trex_alive_kept [OF s(2) k] ih(1) by simp
  have "prevDist g' = Fin d" if "\<exists>j<Suc k. alive (tRexes g ! j)"
  proof (cases "alive (tRexes g ! k)")
    case True
    then show ?thesis using control_trex_stores [OF s(2)] ak by simp
  next
    case False
    then have "g' = s" using s(2) ak by (simp add: control_trex_dead)
    moreover have "\<exists>j<k. alive (tRexes g ! j)" using that False less_Suc_eq by auto
    ultimately show ?thesis using ih(2) by simp
  qed
  with a' show ?case by simp
qed

lemma control_loop_stores:
  assumes "control_loop g (Some ob) (Fin d) dt = Inr g'"
    and "\<exists>j<length (tRexes g). alive (tRexes g ! j)"
  shows "prevDist g' = Fin d"
  using control_prefix_stores [of "length (tRexes g)" g ob d dt g'] assms
  by (simp add: control_loop_def)

lemma dead_prefix_skipped:
  "\<forall>j<i. \<not> alive (tRexes g ! j) \<Longrightarrow>
   fold (\<lambda>k acc. and_then acc (\<lambda>s. control_trex s k c m dt)) [0..<i] (Inr g) = Inr g"
  by (induction i) (simp_all add: control_trex_dead)

lemma prevDist_advance_clock [simp]: "prevDist (advance_clock g dt) = prevDist g"
  by (simp add: advance_clock_def Let_def)

lemma obstacles_advance_clock [simp]: "obstacles (advance_clock g dt) = obstacles g"
  by (simp add: advance_clock_def Let_def)

lemma tRexes_advance_clock [simp]: "tRexes (advance_clock g dt) = tRexes g"
  by (simp add: advance_clock_def Let_def)

lemma networks_advance_clock [simp]: "networks (advance_clock g dt) = networks g"
  by (simp add: advance_clock_def Let_def)

lemma prevDist_world_phase [simp]: "prevDist (world_phase g env) = prevDist g"
  by (simp add: world_phase_def Let_def updateAllTRexes_def checkCollisions_def
      split: list.splits)

lemma update_stores:
  assumes "update g env = Inr g'" "playing g" "tRexes g \<noteq> []"
    "length (networks g) = length (tRexes g)" "\<exists>j<length (tRexes g). alive (tRexes g ! j)"
    "global_closest (obstacles g) = (Some ob, Fin d)"
  shows "prevDist g' = Fin d"
proof -
  let ?g2 = "advance_clock g (env_deltaTime env)"
  have cp: "control_phase ?g2 (env_deltaTime env) =
              control_loop ?g2 (Some ob) (Fin d) (env_deltaTime env)"
    using assms(3,4,6) by (simp add: control_phase_def)
  obtain g3 where g3: "control_loop ?g2 (Some ob) (Fin d) (env_deltaTime env) = Inr g3"
    "g' = world_phase g3 env"
    using assms(1,2) cp
    by (cases "control_loop ?g2 (Some ob) (Fin d) (env_deltaTime env)")
      (simp_all add: update_def)
  have "prevDist g3 = Fin d"
    using control_loop_stores [OF g3(1)] assms(5) by simp
  then show ?thesis using g3(2) by simp
qed

text \<open>
  Claim C4, as amended. Let a tick with a live runner and a nearest obstacle at distance
  \<open>d0\<close> return, and let \<open>g\<close> be the state at the head of the next control loop. Then the
  distance stored in \<open>g\<close> is \<open>d0\<close>; the runners before the first live runner \<open>i\<close> are
  skipped, so \<open>i\<close> computes its features in \<open>g\<close>; with an obstacle at distance \<open>d\<close> its
  feature 11 is \<open>clamp (((d0 - d) * FPS) / 600, -1, 1)\<close> and the distance stored is \<open>d\<close>;
  with no obstacle the feature is 0 and the stored distance is reset to infinite; and
  from a stored infinite distance the feature is 1.
\<close>

theorem dDistance_first_runner:
  assumes "update g0 env0 = Inr g1" and "playing g0" and "tRexes g0 \<noteq> []"
    and "length (networks g0) = length (tRexes g0)"
    and "\<exists>j<length (tRexes g0). alive (tRexes g0 ! j)"
    and "global_closest (obstacles g0) = (Some ob0, Fin d0)"
    and "g = advance_clock g1 dt"
    and "\<forall>j<i. \<not> alive (tRexes g ! j)"
  shows "prevDist g = Fin d0 \<and>
         fold (\<lambda>k acc. and_then acc (\<lambda>s. control_trex s k c m dt)) [0..<i] (Inr g) = Inr g \<and>
         dDistance (fst (getGameInputsForNN g (tRexes g ! i) (Some ob) (Fin d))) =
           Math_max (Fin (- 1)) (Math_min (Fin 1) ((Fin d0 - Fin d) * FPS / Fin 600)) \<and>
         snd (getGameInputsForNN g (tRexes g ! i) (Some ob) (Fin d)) = Fin d \<and>
         (resolve_closest g (tRexes g ! i) None PInf = (None, PInf) \<longrightarrow>
            dDistance (fst (getGameInputsForNN g (tRexes g ! i) None PInf)) = Fin 0 \<and>
            snd (getGameInputsForNN g (tRexes g ! i) None PInf) = PInf) \<and>
         dDistance (fst (getGameInputsForNN (g\<lparr>prevDist := PInf\<rparr>) (tRexes g ! i) (Some ob)
                           (Fin d))) = Fin 1"
proof -
  have p: "prevDist g = Fin d0"
    using update_stores [OF assms(1-6)] assms(7) by simp
  have "dDistance (fst (getGameInputsForNN (g\<lparr>prevDist := PInf\<rparr>) (tRexes g ! i) (Some ob)
                           (Fin d))) = Fin 1"
    using inputs_with_obstacle [of "g\<lparr>prevDist := PInf\<rparr>" "tRexes g ! i" ob d]
    by (simp add: clamp_after_reset)
  then show ?thesis
    using p dead_prefix_skipped [OF assms(8), of c m dt]
      inputs_with_obstacle [of g "tRexes g ! i" ob d]
      inputs_without_obstacle [of g "tRexes g ! i"]
    by simp
qed


lemma example_game_facts:
  "playing example_game" "tRexes example_game \<noteq> []"
  "length (networks example_game) = length (tRexes example_game)"
  "\<exists>j<length (tRexes example_game). alive (tRexes example_game ! j)"
  "global_closest (obstacles example_game) = (Some (example_cactus 240), Fin 190)"
  "frozen 0 (Fin 7) example_game"
proof -
  show "playing example_game" "tRexes example_game \<noteq> []"
    "length (networks example_game) = length (tRexes example_game)"
    by (simp_all add: example_game_def)
  have "alive (tRexes example_game ! 1)" by (simp add: example_game_def example_trex_def)
  moreover have "1 < length (tRexes example_game)" by (simp add: example_game_def)
  ultimately show "\<exists>j<length (tRexes example_game). alive (tRexes example_game ! j)" by blast
  show "global_closest (obstacles example_game) = (Some (example_cactus 240), Fin 190)"
    by (simp add: example_game_def global_closest_def closest_step_def example_cactus_def
        TREX_CONFIG_START_X_POS_def number_ops)
  show "frozen 0 (Fin 7) example_game"
    by (simp add: frozen_def example_game_def dead_trex_def js_nth_def)
qed

text \<open>
  The theorem at \<open>example_game\<close> (first runner dead, cactus at distance 190) followed by
  a tick with the cactus at distance 184: the second runner's feature 11 is 0.6.
\<close>

theorem dDistance_first_runner_witness:
  "playing example_game \<and>
   global_closest (obstacles example_game) = (Some (example_cactus 240), Fin 190) \<and>
   (\<exists>g1. update example_game example_env = Inr g1 \<and>
      \<not> alive (tRexes (advance_clock g1 (Fin 16)) ! 0) \<and>
      prevDist (advance_clock g1 (Fin 16)) = Fin 190 \<and>
      dDistance (fst (getGameInputsForNN (advance_clock g1 (Fin 16))
                        (tRexes (advance_clock g1 (Fin 16)) ! 1)
                        (Some (example_cactus 234)) (Fin 184))) = Fin (3 / 5))"
proof -
  obtain g1 where g1: "update example_game example_env = Inr g1"
    using update_ok [OF pop_ok_example_game] by blast
  have dead: "\<not> alive (tRexes (advance_clock g1 (Fin 16)) ! 0)"
    using update_frozen [OF example_game_facts(6) g1] by (simp add: frozen_def)
  then have pre: "\<forall>j<1. \<not> alive (tRexes (advance_clock g1 (Fin 16)) ! j)" by simp
  have clamp: "Math_max (Fin (- 1)) (Math_min (Fin 1) ((Fin 190 - Fin 184) * FPS / Fin 600)) =
               Fin (3 / 5)"
    by (simp add: number_ops FPS_def Math_min_def Math_max_def)
  from dDistance_first_runner [OF g1 example_game_facts(1-5) refl pre,
      of None PInf "example_cactus 234" 184]
  show ?thesis using g1 dead example_game_facts(1,5) by (simp add: clamp)
qed

text \<open>
  Claim C4 as stated fails on a tick with no obstacle: the previous distance is 200, the
  current one infinite, the formula of the claim gives -1, and the feature is 0.
\<close>

theorem dDistance_no_obstacle_counterexample:
  "prevDist empty_track_game = Fin 200 \<and>
   global_closest (obstacles empty_track_game) = (None, PInf) \<and>
   resolve_closest empty_track_game example_trex None PInf = (None, PInf) \<and>
   dDistance (fst (getGameInputsForNN empty_track_game example_trex None PInf)) = Fin 0 \<and>
   Math_max (Fin (- 1)) (Math_min (Fin 1) ((Fin 200 - PInf) * FPS / Fin 600)) = Fin (- 1) \<and>
   dDistance (fst (getGameInputsForNN empty_track_game example_trex None PInf)) \<noteq>
     Math_max (Fin (- 1)) (Math_min (Fin 1) ((Fin 200 - PInf) * FPS / Fin 600))"
proof -
  have r: "resolve_closest empty_track_game example_trex None PInf = (None, PInf)"
    by (simp add: resolve_closest_def empty_track_game_def)
  have c: "Math_max (Fin (- 1)) (Math_min (Fin 1) ((Fin 200 - PInf) * FPS / Fin 600)) = Fin (- 1)"
    by (simp add: number_ops FPS_def Math_min_def Math_max_def)
  have g: "global_closest (obstacles empty_track_game) = (None, PInf)"
    "prevDist empty_track_game = Fin 200"
    by (simp_all add: empty_track_game_def global_closest_def example_game_def)
  show ?thesis using inputs_without_obstacle [OF r] r c g by simp
qed

subsection \<open>The stored distance is shared by the runners\<close>

lemma js_nth_inputs_vector_10: "js_nth (inputs_vector gi) 10 = dDistance gi"
  by (simp add: inputs_vector_def js_nth_def)

lemma control_trex_step:
  assumes "pop_ok g" "j < length (networks g)" "alive (tRexes g ! j)"
  shows "\<exists>g'. control_trex g j c m dt = Inr g' \<and> pop_ok g' \<and>
           length (networks g') = length (networks g) \<and>
           lastInputs (networks g' ! j) =
             inputs_vector (fst (getGameInputsForNN g (tRexes g ! j) c m)) \<and>
           (\<forall>k. k \<noteq> j \<longrightarrow> networks g' ! k = networks g ! k \<and> tRexes g' ! k = tRexes g ! k) \<and>
           prevDist g' = snd (getGameInputsForNN g (tRexes g ! j) c m)"
proof -
  let ?gi = "getGameInputsForNN g (tRexes g ! j) c m"
  let ?n = "networks g ! j"
  obtain g' where g': "control_trex g j c m dt = Inr g'" "pop_ok g'"
    "length (networks g') = length (networks g)"
    using control_trex_ok [OF assms(1,2)] by blast
  have wf: "wf_network ?n" "length (inputs_vector (fst ?gi)) = inputSize (architecture ?n)"
    using pop_ok_networks [OF assms(1,2)] by simp_all
  from predict_wf [OF wf] obtain h1 h2 out where
    p: "predict ?n (inputs_vector (fst ?gi)) =
          Inr (out, ?n\<lparr>lastInputs := inputs_vector (fst ?gi), lastHidden1 := h1,
                       lastHidden2 := h2, lastOutputs := out\<rparr>)" by blast
  from control_trex_result [OF g'(1) assms(3)] p obtain t' f' obs' where
    eq: "g' = g\<lparr>tRexes := (tRexes g)[j := t'],
                networks := (networks g)[j := ?n\<lparr>lastInputs := inputs_vector (fst ?gi),
                              lastHidden1 := h1, lastHidden2 := h2, lastOutputs := out\<rparr>],
                fitness := js_update (fitness g) j f', obstacles := obs',
                prevDist := snd ?gi\<rparr>" by auto
  have "lastInputs (networks g' ! j) = inputs_vector (fst ?gi)"
    using assms(2) by (simp add: eq)
  moreover have "\<forall>k. k \<noteq> j \<longrightarrow> networks g' ! k = networks g ! k \<and> tRexes g' ! k = tRexes g ! k"
    by (simp add: eq)
  moreover have "prevDist g' = snd ?gi" by (simp add: eq)
  ultimately show ?thesis using g' by blast
qed

text \<open>
  The stored distance is one value for all runners. In \<open>two_runner_game\<close> both runners
  are alive at the same position, the stored distance is 200 and the cactus is at 190.
  After the control loop the inputs cached by the first runner's network hold feature 11
  as 1, those of the second runner's network hold it as 0: the second runner found the
  distance that the first had stored in the same tick.
\<close>

theorem dDistance_order_dependence:
  "prevDist two_runner_game = Fin 200 \<and>
   global_closest (obstacles two_runner_game) = (Some (example_cactus 240), Fin 190) \<and>
   alive (tRexes two_runner_game ! 0) \<and> alive (tRexes two_runner_game ! 1) \<and>
   xPos (tRexes two_runner_game ! 0) = xPos (tRexes two_runner_game ! 1) \<and>
   (\<exists>g'. control_loop two_runner_game (Some (example_cactus 240)) (Fin 190) (Fin 16) = Inr g' \<and>
      js_nth (lastInputs (networks g' ! 0)) 10 = Fin 1 \<and>
      js_nth (lastInputs (networks g' ! 1)) 10 = Fin 0)"
proof -
  let ?c = "Some (example_cactus 240)"
  let ?g = two_runner_game
  have facts: "prevDist ?g = Fin 200" "length (tRexes ?g) = 2" "length (networks ?g) = 2"
    "alive (tRexes ?g ! 0)" "alive (tRexes ?g ! 1)"
    "xPos (tRexes ?g ! 0) = xPos (tRexes ?g ! 1)"
    by (simp_all add: two_runner_game_def example_game_def example_trex_def)
  have gc: "global_closest (obstacles ?g) = (Some (example_cactus 240), Fin 190)"
    using example_game_facts(5) by (simp add: two_runner_game_def)
  have pop: "pop_ok ?g" using pop_ok_example_game by (simp add: pop_ok_def two_runner_game_def)
  from control_trex_step [OF pop _ facts(4), of "?c" "Fin 190" "Fin 16"] facts(3)
  obtain g1 where g1: "control_trex ?g 0 ?c (Fin 190) (Fin 16) = Inr g1" "pop_ok g1"
    "length (networks g1) = 2"
    "lastInputs (networks g1 ! 0) =
       inputs_vector (fst (getGameInputsForNN ?g (tRexes ?g ! 0) ?c (Fin 190)))"
    "tRexes g1 ! 1 = tRexes ?g ! 1"
    "prevDist g1 = snd (getGameInputsForNN ?g (tRexes ?g ! 0) ?c (Fin 190))"
    by auto
  have a1: "alive (tRexes g1 ! 1)" using g1(5) facts(5) by simp
  from control_trex_step [OF g1(2) _ a1, of "?c" "Fin 190" "Fin 16"] g1(3)
  obtain g2 where g2: "control_trex g1 1 ?c (Fin 190) (Fin 16) = Inr g2"
    "lastInputs (networks g2 ! 1) =
       inputs_vector (fst (getGameInputsForNN g1 (tRexes g1 ! 1) ?c (Fin 190)))"
    "networks g2 ! 0 = networks g1 ! 0"
    by auto
  have loop: "control_loop ?g ?c (Fin 190) (Fin 16) = Inr g2"
    using g1(1) g2(1) facts(2) by (simp add: control_loop_def upt_rec numeral_2_eq_2)
  have p1: "prevDist g1 = Fin 190" using g1(6) inputs_with_obstacle [of ?g] by simp
  have d0: "js_nth (lastInputs (networks g2 ! 0)) 10 = Fin 1"
    using g2(3) g1(4) inputs_with_obstacle [of ?g "tRexes ?g ! 0" "example_cactus 240" 190] facts(1)
    by (simp add: js_nth_inputs_vector_10 number_ops FPS_def Math_min_def Math_max_def)
  have d1: "js_nth (lastInputs (networks g2 ! 1)) 10 = Fin 0"
    using g2(2) inputs_with_obstacle [of g1 "tRexes g1 ! 1" "example_cactus 240" 190] p1
    by (simp add: js_nth_inputs_vector_10 number_ops FPS_def Math_min_def Math_max_def)
  show ?thesis using facts gc loop d0 d1 by blast
qed

section \<open>Properties of runs\<close>

subsection \<open>The best-ever record\<close>

lemma js_less_trans: "js_less a b \<Longrightarrow> js_less b c \<Longrightarrow> js_less a c"
  by (cases a; cases b; cases c) simp_all

lemma record_grows_refl [simp]: "record_grows g g"
  by (simp add: record_grows_def)

lemma record_grows_trans: "record_grows g g1 \<Longrightarrow> record_grows g1 g2 \<Longrightarrow> record_grows g g2"
  unfolding record_grows_def less_number_def by (metis js_less_trans)

lemma record_kept_grows: "record_kept g g' \<Longrightarrow> record_grows g g'"
  by (simp add: record_kept_def record_grows_def)

lemma store_best_fields [simp]:
  "networks (store_best g x w) = networks g" "fitness (store_best g x w) = fitness g"
  "generation (store_best g x w) = generation g" "tRexes (store_best g x w) = tRexes g"
  by (simp_all add: store_best_def)

lemma handleRestart_fields [simp]:
  "networks (handleRestart g) = networks g" "fitness (handleRestart g) = fitness g"
  "bestFitness (handleRestart g) = bestFitness g" "bestWeights (handleRestart g) = bestWeights g"
  "generation (handleRestart g) = generation g"
  by (simp_all add: handleRestart_def)

lemma handleGenerationEnd_record:
  assumes "handleGenerationEnd g sh k r p = Some (g', p')"
  shows "\<exists>b w. nth_opt (rank_indices (fitness g)) 0 = Some b \<and>
           getWeights (networks g ! b) = Inr w \<and>
           (if bestFitness g < js_nth (fitness g) b
            then bestFitness g' = js_nth (fitness g) b \<and> bestWeights g' = Some w
            else bestFitness g' = bestFitness g \<and> bestWeights g' = bestWeights g)"
proof -
  from assms obtain b where b: "nth_opt (rank_indices (fitness g)) 0 = Some b"
    by (cases "nth_opt (rank_indices (fitness g)) 0") (simp_all add: handleGenerationEnd_def)
  from assms b have bl: "b < length (networks g)"
    by (cases "b < length (networks g)") (simp_all add: handleGenerationEnd_def nth_opt_def)
  from assms b bl obtain w where w: "getWeights (networks g ! b) = Inr w"
    by (cases "getWeights (networks g ! b)") (simp_all add: handleGenerationEnd_def nth_opt_def)
  from assms b bl w obtain nx where
    g': "g' = handleRestart ((store_best g (js_nth (fitness g) b) w)
              \<lparr>networks := nx, fitness := replicate (length nx) (Fin 0),
                generation := generation (store_best g (js_nth (fitness g) b) w) + 1\<rparr>)"
    by (cases "next_generation (networks g) (fitness g) b (networks g ! b) sh k r p")
      (auto simp: handleGenerationEnd_def nth_opt_def Let_def)
  have "bestFitness g' = bestFitness (store_best g (js_nth (fitness g) b) w)"
    "bestWeights g' = bestWeights (store_best g (js_nth (fitness g) b) w)"
    by (simp_all add: g')
  then show ?thesis using b w by (auto simp: store_best_def)
qed

lemma handleGenerationEnd_grows:
  "handleGenerationEnd g sh k r p = Some (g', p') \<Longrightarrow> record_grows g g'"
  using handleGenerationEnd_record [of g sh k r p g' p']
  by (auto simp: record_grows_def split: if_splits)

lemma step_grows: "step r g ev = Some g' \<Longrightarrow> record_grows g g'"
proof (cases ev)
  case (Tick env)
  assume "step r g ev = Some g'"
  then have "update g env = Inr g'" using Tick by (cases "update g env") simp_all
  then show ?thesis by (intro record_kept_grows update_kept)
next
  case (GenerationEnd sh k p)
  assume "step r g ev = Some g'"
  then obtain p' where "handleGenerationEnd g sh k r p = Some (g', p')"
    using GenerationEnd by auto
  then show ?thesis by (rule handleGenerationEnd_grows)
next
  case Start
  assume "step r g ev = Some g'"
  then show ?thesis using Start by (auto simp: record_grows_def handleStart_def)
qed

lemma run_grows: "run r g evs = Some g' \<Longrightarrow> record_grows g g'"
proof (induction evs arbitrary: g)
  case Nil
  then show ?case by simp
next
  case (Cons ev evs)
  then obtain g1 where g1: "step r g ev = Some g1" "run r g1 evs = Some g'"
    by (cases "step r g ev") simp_all
  from step_grows [OF g1(1)] Cons.IH [OF g1(2)] show ?case by (rule record_grows_trans)
qed

text \<open>
  Claim C7. Over any run of ticks, starts and generation rollovers that returns, the
  best-ever record is either unchanged (fitness and weights) or its fitness is strictly
  greater than before. A rollover replaces the record, by the fitness of the first-ranked
  agent and that agent's weights, exactly when that fitness strictly exceeds the stored
  one; otherwise it leaves both as they were.
\<close>

theorem best_fitness_monotone:
  "(\<forall>evs g'. run r g evs = Some g' \<longrightarrow>
      (bestFitness g' = bestFitness g \<and> bestWeights g' = bestWeights g) \<or>
      bestFitness g < bestFitness g') \<and>
   (\<forall>sh k p g' p'. handleGenerationEnd g sh k r p = Some (g', p') \<longrightarrow>
      (\<exists>b w. nth_opt (rank_indices (fitness g)) 0 = Some b \<and>
             getWeights (networks g ! b) = Inr w \<and>
             (if bestFitness g < js_nth (fitness g) b
              then bestFitness g' = js_nth (fitness g) b \<and> bestWeights g' = Some w
              else bestFitness g' = bestFitness g \<and> bestWeights g' = bestWeights g)))"
  using run_grows [of r g] handleGenerationEnd_record [of g _ _ r]
  by (simp add: record_grows_def)

subsection \<open>The population\<close>

lemma pop_ok_wf: "pop_ok g \<Longrightarrow> \<forall>net\<in>set (networks g). wf_network net"
  by (simp add: pop_ok_def list_all_iff)

lemma default_inputSize [simp]: "inputSize DEFAULT_ARCHITECTURE = 12"
  by (simp add: DEFAULT_ARCHITECTURE_def)

lemma handleGenerationEnd_pop:
  assumes "pop_ok g" "valid_shuffle (length (networks g)) sh" "valid_rng r" "fair_rng r"
  shows "\<exists>g' p'. handleGenerationEnd g sh k r p = Some (g', p') \<and>
           length (networks g') = length (networks g) \<and> pop_ok g'"
proof -
  have a: "networks g \<noteq> []" "length (fitness g) = length (networks g)"
    "\<forall>net\<in>set (networks g). wf_network net"
    "\<forall>net\<in>set (networks g). inputSize (architecture net) = 12"
    using assms(1) by (simp_all add: pop_ok_def list_all_iff)
  from handleGenerationEnd_ok [OF a(1-3) assms(2-4), of k p]
  obtain b elite rest p' where h:
    "b < length (networks g)"
    "handleGenerationEnd g sh k r p =
       Some (handleRestart
               ((store_best g (js_nth (fitness g) b) (flatten (networks g ! b)))
                \<lparr>networks := elite # rest,
                  fitness := replicate (length (networks g)) (Fin 0),
                  generation := generation g + 1\<rparr>), p')"
    "length (elite # rest) = length (networks g)"
    "architecture elite = architecture (networks g ! b)"
    "\<forall>y\<in>set (elite # rest). wf_network y"
    "\<forall>y\<in>set rest. architecture y = DEFAULT_ARCHITECTURE \<or>
                    (\<exists>net\<in>set (networks g). architecture y = architecture net)" by blast
  let ?g' = "handleRestart
               ((store_best g (js_nth (fitness g) b) (flatten (networks g ! b)))
                \<lparr>networks := elite # rest,
                  fitness := replicate (length (networks g)) (Fin 0),
                  generation := generation g + 1\<rparr>)"
  have "inputSize (architecture elite) = 12" using h(1,4) a(4) by simp
  moreover have "\<forall>y\<in>set rest. inputSize (architecture y) = 12"
    using h(6) a(4) by auto
  ultimately have "\<forall>y\<in>set (elite # rest). wf_network y \<and> inputSize (architecture y) = 12"
    using h(5) by simp
  then have "pop_ok ?g'" using h(3) by (simp add: pop_ok_def list_all_iff del: length_Cons)
  moreover have "length (networks ?g') = length (networks g)" using h(3) by simp
  ultimately show ?thesis using h(2) by blast
qed

lemma handleStart_pop: "pop_ok g \<Longrightarrow> pop_ok (handleStart g)"
  by (simp add: pop_ok_def handleStart_def)

lemma step_ok:
  assumes "pop_ok g" "valid_rng r" "fair_rng r" "good_event (length (networks g)) ev"
  shows "\<exists>g'. step r g ev = Some g' \<and> length (networks g') = length (networks g) \<and> pop_ok g'"
proof (cases ev)
  case (Tick env)
  obtain g' where g': "update g env = Inr g'" "pop_ok g'" using update_ok [OF assms(1)] by blast
  from update_kept [OF g'(1)] have "length (networks g') = length (networks g)"
    by (simp add: record_kept_def)
  then show ?thesis using Tick g' by simp
next
  case (GenerationEnd sh k p)
  then have "valid_shuffle (length (networks g)) sh" using assms(4) by simp
  from handleGenerationEnd_pop [OF assms(1) this assms(2,3), of k p]
  show ?thesis using GenerationEnd by auto
next
  case Start
  then show ?thesis using handleStart_pop [OF assms(1)] by (simp add: handleStart_def)
qed

lemma run_ok:
  assumes "pop_ok g" "valid_rng r" "fair_rng r"
    and "list_all (good_event (length (networks g))) evs"
  shows "\<exists>g'. run r g evs = Some g' \<and> length (networks g') = length (networks g) \<and> pop_ok g'"
  using assms(1,4)
proof (induction evs arbitrary: g)
  case Nil
  then show ?case by simp
next
  case (Cons ev evs)
  from step_ok [OF Cons.prems(1) assms(2,3), of ev] Cons.prems(2)
  obtain g1 where g1: "step r g ev = Some g1" "length (networks g1) = length (networks g)"
    "pop_ok g1" by auto
  from Cons.IH [OF g1(3)] Cons.prems(2) g1(2)
  obtain g' where "run r g1 evs = Some g'" "length (networks g') = length (networks g1)"
    "pop_ok g'" by auto
  then show ?case using g1 by simp
qed

text \<open>
  Claim C5. From a population of \<open>N \<ge> 1\<close> well-formed networks with one fitness entry
  each, with draws in \<open>[0, 1)\<close> that are not zero for ever, every generation rollover
  returns, and the new population has exactly \<open>N\<close> networks (and \<open>N\<close> fitness entries);
  so does every run of ticks, starts and rollovers: the population size is constant.
\<close>

theorem population_size_constant:
  assumes "pop_ok g" and "valid_rng r" and "fair_rng r"
  shows "(\<forall>sh k p. valid_shuffle (length (networks g)) sh \<longrightarrow>
            (\<exists>g' p'. handleGenerationEnd g sh k r p = Some (g', p') \<and>
                      length (networks g') = length (networks g) \<and>
                      length (fitness g') = length (networks g))) \<and>
         (\<forall>evs. list_all (good_event (length (networks g))) evs \<longrightarrow>
            (\<exists>g'. run r g evs = Some g' \<and> length (networks g') = length (networks g)))"
proof (intro conjI allI impI)
  fix sh k p assume "valid_shuffle (length (networks g)) sh"
  from handleGenerationEnd_pop [OF assms(1) this assms(2,3), of k p]
  show "\<exists>g' p'. handleGenerationEnd g sh k r p = Some (g', p') \<and>
                      length (networks g') = length (networks g) \<and>
                      length (fitness g') = length (networks g)"
    by (auto simp: pop_ok_def)
next
  fix evs assume "list_all (good_event (length (networks g))) evs"
  from run_ok [OF assms this]
  show "\<exists>g'. run r g evs = Some g' \<and> length (networks g') = length (networks g)" by blast
qed

text \<open>
  Claim C6, as amended. The rollover of a population with finite fitness values returns,
  and slot 0 of the new population holds a clone of the best agent of the old one (the
  first agent of maximal fitness): same architecture, identical weights.
\<close>

theorem elite_in_slot_0:
  assumes "networks g \<noteq> []" and "length (fitness g) = length (networks g)"
    and "\<forall>net\<in>set (networks g). wf_network net"
    and "\<forall>x\<in>set (fitness g). Number_isFinite x"
    and "valid_shuffle (length (networks g)) sh" and "valid_rng r" and "fair_rng r"
  shows "\<exists>g' p' b. handleGenerationEnd g sh k r p = Some (g', p') \<and>
           b < length (networks g) \<and>
           (\<forall>j<length (fitness g). fitness g ! j \<le> fitness g ! b) \<and>
           (\<forall>j<b. fitness g ! j < fitness g ! b) \<and>
           getWeights (networks g' ! 0) = getWeights (networks g ! b) \<and>
           architecture (networks g' ! 0) = architecture (networks g ! b)"
proof -
  have fne: "fitness g \<noteq> []" using assms(1,2) by auto
  from rank_indices_best [OF fne assms(4)] obtain b where b:
    "b < length (fitness g)" "nth_opt (rank_indices (fitness g)) 0 = Some b"
    "\<forall>j<length (fitness g). fitness g ! j \<le> fitness g ! b"
    "\<forall>j<b. fitness g ! j < fitness g ! b" by blast
  from handleGenerationEnd_ok [OF assms(1,2,3,5,6,7), of k p] b(2)
  obtain elite rest p' where h:
    "handleGenerationEnd g sh k r p =
       Some (handleRestart
               ((store_best g (js_nth (fitness g) b) (flatten (networks g ! b)))
                \<lparr>networks := elite # rest,
                  fitness := replicate (length (networks g)) (Fin 0),
                  generation := generation g + 1\<rparr>), p')"
    "flatten elite = flatten (networks g ! b)"
    "architecture elite = architecture (networks g ! b)"
    "\<forall>y\<in>set (elite # rest). wf_network y" by auto
  let ?g' = "handleRestart
               ((store_best g (js_nth (fitness g) b) (flatten (networks g ! b)))
                \<lparr>networks := elite # rest,
                  fitness := replicate (length (networks g)) (Fin 0),
                  generation := generation g + 1\<rparr>)"
  have wfb: "wf_network (networks g ! b)" using assms(2,3) b(1) by simp
  have "getWeights (networks ?g' ! 0) = getWeights (networks g ! b)"
    using h(2,4) wfb by (simp add: getWeights_wf)
  moreover have "architecture (networks ?g' ! 0) = architecture (networks g ! b)"
    using h(3) by simp
  ultimately show ?thesis using h(1) b assms(2) by (intro exI [of _ ?g'] exI [of _ p'] exI [of _ b]) simp
qed


subsection \<open>Rollovers with constant draws\<close>

lemma valid_constant_draws: "valid_rng (constant_draws (1 / 2))"
  by (simp add: valid_rng_def constant_draws_def)

lemma fair_constant_draws: "fair_rng (constant_draws (1 / 2))"
  by (auto simp: fair_rng_def constant_draws_def)

lemma random_index_constant:
  "random_index (constant_draws c) p n = nat \<lfloor>c * real n\<rfloor>"
  by (simp add: random_index_def constant_draws_def)

lemma js_less_irrefl: "\<not> js_less a a"
  by (cases a) simp_all

lemma tournament_fold_constant:
  "fst (fold (\<lambda>t (bestIdx, q).
             let challenger = nat \<lfloor>c * real n\<rfloor> in
             (if js_nth fit bestIdx < js_nth fit challenger then challenger else bestIdx,
              Suc q)) ts (nat \<lfloor>c * real n\<rfloor>, q0)) = nat \<lfloor>c * real n\<rfloor>"
  by (induction ts arbitrary: q0) (simp_all add: Let_def less_number_def js_less_irrefl)

lemma tournament_constant:
  "fst (tournament fit n k (constant_draws c) p) = nat \<lfloor>c * real n\<rfloor>"
  unfolding tournament_def random_index_constant by (rule tournament_fold_constant)

lemma pool_fold_constant:
  "fst (fold (\<lambda>i (pool, q).
             let (bestIdx, q') = tournament fit (length nets) k (constant_draws c) q
             in (pool @ [nth_opt nets bestIdx], q')) is (pool, q0)) =
   pool @ replicate (length is) (nth_opt nets (nat \<lfloor>c * real (length nets)\<rfloor>))"
proof (induction "is" arbitrary: pool q0)
  case Nil
  show ?case by simp
next
  case (Cons i "is")
  obtain b q' where t: "tournament fit (length nets) k (constant_draws c) q0 = (b, q')"
    by (cases "tournament fit (length nets) k (constant_draws c) q0")
  then have b: "b = nat \<lfloor>c * real (length nets)\<rfloor>"
    using tournament_constant [of fit "length nets" k c q0] by simp
  show ?case using Cons.IH [of "pool @ [nth_opt nets b]" q'] t b
    by (simp add: replicate_app_Cons_same)
qed

lemma buildParentsPool_constant:
  "fst (buildParentsPool nets fit k (constant_draws c) p) =
   replicate (length nets) (nth_opt nets (nat \<lfloor>c * real (length nets)\<rfloor>))"
  using pool_fold_constant [of fit nets k c "[0..<length nets]" "[]" p]
  by (simp add: buildParentsPool_def)

lemma mutateWeights_none:
  "\<forall>q. \<not> r q < rate \<Longrightarrow> mutateWeights ws rate sigma r p = Some (ws, p + length ws)"
  by (induction ws arbitrary: p) simp_all

lemma crossover_same: "fst (crossoverSinglePoint w w r p) = w"
  by (simp add: crossoverSinglePoint_def Let_def)

lemma make_child_copy:
  assumes "0 < n" "wf_network net" "architecture net = DEFAULT_ARCHITECTURE"
    and "valid_rng r" "\<forall>q. \<not> r q < 5 / 100"
  shows "\<exists>c p'. make_child (replicate n (Some net)) r p = Some (c, p') \<and>
           wf_network c \<and> flatten c = flatten net"
proof -
  let ?pool = "replicate n (Some net)"
  have i1: "random_index r p (length ?pool) < n"
    and i2: "random_index r (Suc p) (length ?pool) < n"
    using assms(1,4) by (simp_all add: random_index_less valid_rng_def)
  obtain q where cw: "crossoverSinglePoint (flatten net) (flatten net) r (Suc (Suc p)) =
                        (flatten net, q)"
    using crossover_same [of "flatten net" r "Suc (Suc p)"]
    by (cases "crossoverSinglePoint (flatten net) (flatten net) r (Suc (Suc p))") simp
  have m: "mutateWeights (flatten net) (5 / 100) (2 / 100) r q =
             Some (flatten net, q + length (flatten net))"
    using assms(5) by (rule mutateWeights_none)
  obtain child q'' where ch:
    "new_NeuralNetwork DEFAULT_ARCHITECTURE r (q + length (flatten net)) = (child, q'')"
    by (cases "new_NeuralNetwork DEFAULT_ARCHITECTURE r (q + length (flatten net))")
  have wfc: "wf_network child" "architecture child = architecture net"
    using wf_new_NeuralNetwork [of DEFAULT_ARCHITECTURE r "q + length (flatten net)"]
      new_NeuralNetwork_architecture [of DEFAULT_ARCHITECTURE r "q + length (flatten net)"]
      ch assms(3) by simp_all
  have len: "length (flatten net) = getTotalWeights child"
    using length_flatten [OF assms(2)] getTotalWeights_cong [OF wfc(2)] by simp
  have "make_child ?pool r p = Some (unflatten child (flatten net), q'')"
    using i1 i2 cw m ch wfc(1) assms(2)
    by (simp add: make_child_def nth_opt_def getWeights_wf setWeights_wf)
  moreover have "wf_network (unflatten child (flatten net))" by (rule wf_unflatten)
  moreover have "flatten (unflatten child (flatten net)) = flatten net"
    using len by (rule flatten_unflatten)
  ultimately show ?thesis by blast
qed

subsection \<open>The rollover of the example population\<close>

lemma wf_uniform_network: "wf_network (uniform_network c)"
  by (simp add: wf_network_def wf_matrix_def uniform_network_def DEFAULT_ARCHITECTURE_def
      list_all_iff)

lemma architecture_uniform_network [simp]:
  "architecture (uniform_network c) = DEFAULT_ARCHITECTURE"
  by (simp add: uniform_network_def)

lemma rank_four: "nth_opt (rank_indices [Fin 0, Fin 0, Fin 5, Fin 0]) 0 = Some 2"
  by (simp add: rank_indices_def nth_opt_def upt_rec number_ops)

lemma next_generation_copies:
  assumes best: "wf_network best" "architecture best = DEFAULT_ARCHITECTURE"
    and pick: "nth_opt nets (nat \<lfloor>c * real (length nets)\<rfloor>) = Some best"
    and small: "length nets div 10 = 0" "0 < length nets"
    and draws: "valid_rng (constant_draws c)" "\<not> c < 5 / 100"
  shows "\<exists>elite zs p'.
           next_generation nets fit bestIdx best sh d (constant_draws c) p =
             Some (elite # zs, p') \<and>
           length (elite # zs) = length nets \<and>
           wf_network elite \<and> flatten elite = flatten best \<and>
           (\<forall>z\<in>set zs. wf_network z \<and> flatten z = flatten best)"
proof -
  let ?r = "constant_draws c"
  let ?k = "max 2 (length nets div 4)"
  obtain pool p1 where pool: "buildParentsPool nets fit ?k ?r p = (pool, p1)"
    by (cases "buildParentsPool nets fit ?k ?r p")
  have pl: "pool = replicate (length nets) (Some best)"
    using buildParentsPool_constant [of nets fit ?k c p] pool pick by simp
  obtain elite p2 where el: "clone best ?r p1 = Inr (elite, p2)" "wf_network elite"
    "flatten elite = flatten best"
    using clone_wf [OF best(1), of ?r p1] by blast
  have sv: "survivors_loop nets bestIdx sh 0 0 [elite] ?r (p2 + d) = Some ([elite], p2 + d)"
    by simp
  have nomut: "\<forall>q. \<not> ?r q < 5 / 100" using draws(2) by (simp add: constant_draws_def)
  have child: "\<exists>c' p'. make_child pool ?r q = Some (c', p') \<and>
                 (wf_network c' \<and> flatten c' = flatten best)" for q
    unfolding pl by (rule make_child_copy [OF small(2) best draws(1) nomut])
  from offspring_loop_children [of pool ?r "\<lambda>c'. wf_network c' \<and> flatten c' = flatten best"
      "length nets" "[elite]" "p2 + d", OF child]
  obtain zs p3 where off:
    "offspring_loop pool (length nets) [elite] ?r (p2 + d) = Some ([elite] @ zs, p3)"
    "length ([elite] @ zs) = max (length nets) (length [elite])"
    "\<forall>z\<in>set zs. wf_network z \<and> flatten z = flatten best" by blast
  have okc: "ok (clone best ?r p1) = Some (elite, p2)" using el(1) by (simp add: ok_def)
  have "next_generation nets fit bestIdx best sh d ?r p = Some (elite # zs, p3)"
    unfolding next_generation_def Let_def pool small(1) prod.case okc option.case sv off(1)
    by simp
  moreover have "length (elite # zs) = length nets" using off(2) small(2) by simp
  ultimately show ?thesis using el(2,3) off(3) by blast
qed

lemma four_game_fields:
  "networks four_game = [uniform_network 0, uniform_network 1, uniform_network 2, uniform_network 3]"
  "fitness four_game = [Fin 0, Fin 0, Fin 5, Fin 0]"
  by (simp_all add: four_game_def)

lemma four_game_rollover:
  "\<exists>g' p' elite y ys.
     handleGenerationEnd four_game [0, 1, 2, 3] 3 (constant_draws (1 / 2)) 0 = Some (g', p') \<and>
     networks g' = elite # y # ys \<and>
     flatten elite = flatten (uniform_network 2) \<and> wf_network elite \<and>
     flatten y = flatten (uniform_network 2) \<and> wf_network y"
proof -
  let ?r = "constant_draws (1 / 2)"
  let ?best = "uniform_network 2"
  define nets where "nets = networks four_game"
  have len: "length nets = 4" by (simp add: nets_def four_game_fields)
  have pick: "nth_opt nets (nat \<lfloor>(1 / 2) * real (length nets)\<rfloor>) = Some ?best"
    unfolding len by (simp add: nets_def four_game_fields nth_opt_def)
  have best: "nth_opt nets 2 = Some ?best"
    by (simp add: nets_def four_game_fields nth_opt_def)
  from next_generation_copies [of ?best nets "1 / 2" "fitness four_game" 2 "[0, 1, 2, 3]" 3 0,
      OF wf_uniform_network architecture_uniform_network pick _ _ valid_constant_draws]
  obtain elite zs p' where ng:
    "next_generation nets (fitness four_game) 2 ?best [0, 1, 2, 3] 3 ?r 0 = Some (elite # zs, p')"
    "length (elite # zs) = length nets" "wf_network elite" "flatten elite = flatten ?best"
    "\<forall>z\<in>set zs. wf_network z \<and> flatten z = flatten ?best"
    unfolding len by auto
  from ng(2) len obtain y ys where zs: "zs = y # ys" by (cases zs) simp_all
  have rk: "nth_opt (rank_indices (fitness four_game)) 0 = Some 2"
    unfolding four_game_fields by (rule rank_four)
  have w: "ok (getWeights ?best) = Some (flatten ?best)"
    by (simp add: getWeights_wf wf_uniform_network ok_def)
  have "handleGenerationEnd four_game [0, 1, 2, 3] 3 ?r 0 =
          Some (handleRestart
                  ((store_best four_game (js_nth (fitness four_game) 2) (flatten ?best))
                   \<lparr>networks := elite # zs,
                     fitness := replicate (length (elite # zs)) (Fin 0),
                     generation := generation (store_best four_game
                                     (js_nth (fitness four_game) 2) (flatten ?best)) + 1\<rparr>), p')"
    unfolding handleGenerationEnd_def rk option.case best [unfolded nets_def] w Let_def
      ng(1) [unfolded nets_def] prod.case ..
  then have "\<exists>g'. handleGenerationEnd four_game [0, 1, 2, 3] 3 ?r 0 = Some (g', p') \<and>
                  networks g' = elite # y # ys"
    by (simp add: handleRestart_fields zs del: replicate.simps length_Cons)
  moreover have "flatten y = flatten ?best" "wf_network y" using ng(5) zs by simp_all
  ultimately show ?thesis using ng(3,4) by blast
qed

text \<open>
  Claim C6 as stated fails in its second half, that no other slot holds an exact copy of
  the best agent's weights. In a population of four whose third network is the single
  best, with every draw \<open>1/2\<close>, both parents of each offspring are the best network (every
  tournament draws index 2), crossing its weights with themselves gives them back, and no
  weight is mutated (\<open>1/2 < 0.05\<close> is false): slot 1 of the next population holds the
  weights of the best agent, as slot 0 does.
\<close>

theorem elite_copies_counterexample:
  "handleGenerationEnd four_game [0, 1, 2, 3] 3 (constant_draws (1 / 2)) 0 \<noteq> None \<and>
   fitness four_game = [Fin 0, Fin 0, Fin 5, Fin 0] \<and>
   nth_opt (rank_indices (fitness four_game)) 0 = Some 2 \<and>
   networks four_game ! 2 = uniform_network 2 \<and>
   getWeights (networks four_game_next ! 0) = getWeights (uniform_network 2) \<and>
   getWeights (networks four_game_next ! 1) = getWeights (uniform_network 2)"
proof -
  from four_game_rollover obtain g' p' elite y ys where h:
    "handleGenerationEnd four_game [0, 1, 2, 3] 3 (constant_draws (1 / 2)) 0 = Some (g', p')"
    "networks g' = elite # y # ys"
    "flatten elite = flatten (uniform_network 2)" "wf_network elite"
    "flatten y = flatten (uniform_network 2)" "wf_network y" by blast
  have n: "four_game_next = g'" unfolding four_game_next_def h(1) by simp
  have "getWeights (networks four_game_next ! 0) = getWeights (uniform_network 2)"
    "getWeights (networks four_game_next ! 1) = getWeights (uniform_network 2)"
    using h(2-6) by (simp_all add: n getWeights_wf wf_uniform_network)
  then show ?thesis using h(1) rank_four by (simp add: four_game_fields)
qed


lemma example_game_population:
  "length (networks example_game) = 2" "fitness example_game = [Fin 7, Fin 3]"
  "networks example_game = [zero_network, zero_network]"
  "bestFitness example_game = Fin 0"
  by (simp_all add: example_game_def)

lemma rank_two: "nth_opt (rank_indices [Fin 7, Fin 3]) 0 = Some 0"
  by (simp add: rank_indices_def nth_opt_def upt_rec number_ops)

text \<open>
  The theorem at \<open>example_game\<close>, a population of two, with every draw \<open>1/2\<close>: one
  rollover, and a run of two generations.
\<close>

theorem population_size_constant_witness:
  "pop_ok example_game \<and> valid_rng (constant_draws (1 / 2)) \<and>
   fair_rng (constant_draws (1 / 2)) \<and> valid_shuffle 2 [0, 1] \<and>
   (\<exists>g' p'. handleGenerationEnd example_game [0, 1] 1 (constant_draws (1 / 2)) 0 =
               Some (g', p') \<and>
             length (networks g') = 2 \<and> length (fitness g') = 2) \<and>
   (\<exists>g'. run (constant_draws (1 / 2)) example_game
            [Start, Tick example_env, GenerationEnd [0, 1] 1 0, Start, Tick example_env] =
            Some g' \<and>
          length (networks g') = 2)"
proof -
  note t = population_size_constant
    [OF pop_ok_example_game valid_constant_draws fair_constant_draws,
      unfolded example_game_population(1)]
  have sh: "valid_shuffle 2 [0, 1]" by (simp add: valid_shuffle_def)
  have evs: "list_all (good_event 2)
               [Start, Tick example_env, GenerationEnd [0, 1] 1 0, Start, Tick example_env]"
    using sh by simp
  from t [THEN conjunct1, rule_format, OF sh, of 1 0] t [THEN conjunct2, rule_format, OF evs]
  show ?thesis
    using pop_ok_example_game valid_constant_draws fair_constant_draws sh by blast
qed

text \<open>
  The theorem at \<open>example_game\<close>, whose stored record is 0 and whose best fitness is 7:
  the rollover stores 7 and the weights of the first network.
\<close>

theorem best_fitness_monotone_witness:
  "(\<exists>g' p'. handleGenerationEnd example_game [0, 1] 1 (constant_draws (1 / 2)) 0 =
               Some (g', p') \<and>
             bestFitness g' = Fin 7 \<and> bestWeights g' = Some (flatten zero_network)) \<and>
   (\<exists>g'. run (constant_draws (1 / 2)) example_game [GenerationEnd [0, 1] 1 0] = Some g' \<and>
          bestFitness example_game < bestFitness g')"
proof -
  let ?r = "constant_draws (1 / 2)"
  note t = best_fitness_monotone [of ?r example_game]
  have sh: "valid_shuffle (length (networks example_game)) [0, 1]"
    by (simp add: valid_shuffle_def example_game_population)
  from handleGenerationEnd_pop [OF pop_ok_example_game sh valid_constant_draws
      fair_constant_draws, of 1 0]
  obtain g' p' where h: "handleGenerationEnd example_game [0, 1] 1 ?r 0 = Some (g', p')"
    by blast
  from t [THEN conjunct2, rule_format, OF h] obtain b w where bw:
    "nth_opt (rank_indices (fitness example_game)) 0 = Some b"
    "getWeights (networks example_game ! b) = Inr w"
    "if bestFitness example_game < js_nth (fitness example_game) b
     then bestFitness g' = js_nth (fitness example_game) b \<and> bestWeights g' = Some w
     else bestFitness g' = bestFitness example_game \<and> bestWeights g' = bestWeights example_game"
    by blast
  have b: "b = 0" using bw(1) rank_two by (simp add: example_game_population)
  have w: "w = flatten zero_network"
    using bw(2) by (simp add: b example_game_population getWeights_wf wf_zero_network)
  have r: "bestFitness g' = Fin 7" "bestWeights g' = Some (flatten zero_network)"
    using bw(3) unfolding b w example_game_population
    by (simp_all add: js_nth_def number_ops)
  have "run ?r example_game [GenerationEnd [0, 1] 1 0] = Some g'" using h by simp
  moreover have "bestFitness example_game < bestFitness g'"
    by (simp add: r example_game_population number_ops)
  ultimately show ?thesis using h r by blast
qed

text \<open>
  The theorem at the population of four whose third network is the single best: slot 0
  of the next population holds that network's weights.
\<close>

theorem elite_in_slot_0_witness:
  "\<exists>g' p'. handleGenerationEnd four_game [0, 1, 2, 3] 3 (constant_draws (1 / 2)) 0 =
              Some (g', p') \<and>
            getWeights (networks g' ! 0) = getWeights (uniform_network 2) \<and>
            architecture (networks g' ! 0) = DEFAULT_ARCHITECTURE"
proof -
  let ?r = "constant_draws (1 / 2)"
  have a: "networks four_game \<noteq> []" "length (fitness four_game) = length (networks four_game)"
    "\<forall>net\<in>set (networks four_game). wf_network net"
    "\<forall>x\<in>set (fitness four_game). Number_isFinite x"
    "valid_shuffle (length (networks four_game)) [0, 1, 2, 3]"
    by (simp_all add: four_game_fields wf_uniform_network valid_shuffle_def)
  from elite_in_slot_0 [OF a valid_constant_draws fair_constant_draws, of 3 0]
  obtain g' p' b where h:
    "handleGenerationEnd four_game [0, 1, 2, 3] 3 ?r 0 = Some (g', p')"
    "b < length (networks four_game)"
    "\<forall>j<length (fitness four_game). fitness four_game ! j \<le> fitness four_game ! b"
    "getWeights (networks g' ! 0) = getWeights (networks four_game ! b)"
    "architecture (networks g' ! 0) = architecture (networks four_game ! b)" by blast
  from h(3) [rule_format, of 2] have "fitness four_game ! 2 \<le> fitness four_game ! b"
    by (simp add: four_game_fields)
  moreover from h(2) have "b = 0 \<or> b = 1 \<or> b = 2 \<or> b = 3"
    unfolding four_game_fields by auto
  ultimately have b: "b = 2" by (auto simp: four_game_fields number_ops)
  show ?thesis using h(1,4,5) by (simp add: b four_game_fields)
qed


end
